theory Spec2Isabelle
  imports Complex_Main
begin

section \<open>Instance model\<close>

text \<open>
  Nodes are Python integers (the generators number them from 0, \<open>read_instance\<close> applies
  \<open>int\<close>). A networkx \<open>DiGraph\<close> is its node list and its arc list in the order
  \<open>G.nodes\<close> and \<open>G.edges\<close> yield them, every arc with its attribute dictionary.
  \<open>traffic_demand\<close> is a dictionary keyed by \<open>(i, j)\<close>: the list of its items in
  insertion order. Capacities, costs and solver values are Python numbers, read as reals;
  the model never rounds: arithmetic on solver expressions is kept symbolic.
\<close>

type_synonym node = int
type_synonym arc = "node \<times> node"
type_synonym key = "node \<times> node \<times> node \<times> node"

record arc_attr =
  capacity :: real
  cost :: real

record digraph =
  nodes :: "node list"
  edges :: "(arc \<times> arc_attr) list"

type_synonym demands = "((node \<times> node) \<times> int) list"

datatype error = ValueError | KeyError | IndexError | ZeroDivisionError | TypeError | Exception

text \<open>\<open>G.edges\<close>, \<open>G.in_edges(node)\<close>, \<open>G.out_edges(node)\<close>, \<open>G.number_of_edges()\<close> and
  the attribute lookup \<open>G[u][v]\<close>, which raises \<open>KeyError\<close> for a pair that is no arc.
  The arcs into and out of a node are listed in the order of \<open>G.edges\<close>; the order only
  decides the order of the terms of a sum.\<close>

definition G_edges :: "digraph \<Rightarrow> arc list" where
  "G_edges g = map fst (edges g)"

definition in_edges :: "digraph \<Rightarrow> node \<Rightarrow> arc list" where
  "in_edges g n = filter (\<lambda>(u, v). v = n) (G_edges g)"

definition out_edges :: "digraph \<Rightarrow> node \<Rightarrow> arc list" where
  "out_edges g n = filter (\<lambda>(u, v). u = n) (G_edges g)"

definition number_of_edges :: "digraph \<Rightarrow> nat" where
  "number_of_edges g = length (edges g)"

definition G_attr :: "digraph \<Rightarrow> arc \<Rightarrow> error + arc_attr" where
  "G_attr g e = (case map_of (edges g) e of None \<Rightarrow> Inl KeyError | Some a \<Rightarrow> Inr a)"

section \<open>The solver's model object\<close>

text \<open>
  A \<open>Var\<close> is identified by the name \<open>addVar\<close> gives it: \<open>x_{i}_{j}_{u}_{v}\<close> is
  \<open>X (i, j, u, v)\<close>, \<open>max_utilisation\<close> is \<open>Max_utilisation\<close>. Solver expressions are
  kept as the tree of Python operations that built them; \<open>Num\<close> is a plain Python number.
  Constraint names \<open>flow_src_{i}_{j}_{node}\<close>, \<open>capacity_{u}_{v}\<close>, ... are kept
  structured in the same way.
\<close>

datatype var = X key | Max_utilisation

datatype expr =
    Num real
  | V var
  | Add expr expr
  | Sub expr expr
  | Mul expr expr
  | Div expr expr

datatype sense = LE | GE | EQ

datatype cname =
    Flow_src node node node
  | Flow_dst node node node
  | Flow_mid node node node
  | Capacity_of node node
  | Utilisation_of node node

record var_decl =
  v_var :: var
  v_lb :: real
  v_ub :: real

record constr =
  c_lhs :: expr
  c_sense :: sense
  c_rhs :: expr
  c_name :: cname

datatype direction = MINIMIZE | MAXIMIZE

record lp_model =
  m_vars :: "var_decl list"
  m_constrs :: "constr list"
  m_objective :: "(expr \<times> direction) option"

definition GRB_INFINITY :: real where
  "GRB_INFINITY = 10 ^ 100"

text \<open>\<open>Model("Routing")\<close>: no variable, no constraint, no objective set.\<close>

definition Model :: lp_model where
  "Model = \<lparr>m_vars = [], m_constrs = [], m_objective = None\<rparr>"

fun is_num :: "expr \<Rightarrow> bool" where
  "is_num (Num r) = True"
| "is_num (V v) = False"
| "is_num (Add a b) = (is_num a \<and> is_num b)"
| "is_num (Sub a b) = (is_num a \<and> is_num b)"
| "is_num (Mul a b) = (is_num a \<and> is_num b)"
| "is_num (Div a b) = (is_num a \<and> is_num b)"

fun expr_val :: "(var \<Rightarrow> real) \<Rightarrow> expr \<Rightarrow> real" where
  "expr_val val (Num r) = r"
| "expr_val val (V v) = val v"
| "expr_val val (Add a b) = expr_val val a + expr_val val b"
| "expr_val val (Sub a b) = expr_val val a - expr_val val b"
| "expr_val val (Mul a b) = expr_val val a * expr_val val b"
| "expr_val val (Div a b) = expr_val val a / expr_val val b"

fun vars_of :: "expr \<Rightarrow> var list" where
  "vars_of (Num r) = []"
| "vars_of (V v) = [v]"
| "vars_of (Add a b) = vars_of a @ vars_of b"
| "vars_of (Sub a b) = vars_of a @ vars_of b"
| "vars_of (Mul a b) = vars_of a @ vars_of b"
| "vars_of (Div a b) = vars_of a @ vars_of b"

text \<open>
  A comparison \<open>==\<close>, \<open><=\<close>, \<open>>=\<close> of two plain Python numbers is a Python \<open>bool\<close>;
  as soon as one side holds a \<open>Var\<close> it is a gurobipy \<open>TempConstr\<close>.
\<close>

datatype cmp_result = TempConstr expr sense expr | PyBool bool

definition holds :: "sense \<Rightarrow> real \<Rightarrow> real \<Rightarrow> bool" where
  "holds s a b = (case s of LE \<Rightarrow> a \<le> b | GE \<Rightarrow> a \<ge> b | EQ \<Rightarrow> a = b)"

definition py_cmp :: "expr \<Rightarrow> sense \<Rightarrow> expr \<Rightarrow> cmp_result" where
  "py_cmp l s r =
     (if is_num l \<and> is_num r then PyBool (holds s (expr_val (\<lambda>_. 0) l) (expr_val (\<lambda>_. 0) r))
      else TempConstr l s r)"

text \<open>Division by a Python number: \<open>ZeroDivisionError\<close> on zero, for a number and for a
  linear expression alike.\<close>

definition py_div :: "expr \<Rightarrow> real \<Rightarrow> error + expr" where
  "py_div e c = (if c = 0 then Inl ZeroDivisionError else Inr (Div e (Num c)))"

text \<open>
  The builtin \<open>sum\<close> over a generator: it starts from the integer 0 and adds the terms from
  the left; a term whose evaluation raises ends the sum with that exception.
\<close>

fun py_sum_from :: "expr \<Rightarrow> ('a \<Rightarrow> error + expr) \<Rightarrow> 'a list \<Rightarrow> error + expr" where
  "py_sum_from acc f [] = Inr acc"
| "py_sum_from acc f (a # as) =
     (case f a of Inl e \<Rightarrow> Inl e | Inr t \<Rightarrow> py_sum_from (Add acc t) f as)"

definition py_sum :: "('a \<Rightarrow> error + expr) \<Rightarrow> 'a list \<Rightarrow> error + expr" where
  "py_sum f as = py_sum_from (Num 0) f as"

text \<open>
  A solver coefficient is a double: multiplying a \<open>Var\<close> by a Python \<open>int\<close> that does not
  convert to a double raises \<open>TypeError\<close>. The conversion rounds to nearest, so it
  overflows from \<open>2^1024 - 2^970\<close> on.
\<close>

definition fits_double :: "int \<Rightarrow> bool" where
  "fits_double n = (\<bar>n\<bar> < 2 ^ 1024 - 2 ^ 970)"

definition int_times :: "int \<Rightarrow> expr \<Rightarrow> error + expr" where
  "int_times n e = (if fits_double n then Inr (Mul (Num (of_int n)) e) else Inl TypeError)"

definition times_int :: "expr \<Rightarrow> int \<Rightarrow> error + expr" where
  "times_int e n = (if fits_double n then Inr (Mul e (Num (of_int n))) else Inl TypeError)"

text \<open>
  \<open>model.addVar\<close>, \<open>model.addConstr\<close>, \<open>model.setObjective\<close>. \<open>addConstr\<close> stores a
  \<open>TempConstr\<close> as it is. It accepts a Python \<open>bool\<close> as well and stores it as a row
  without variables: \<open>True\<close> as \<open>0 <= 0\<close>, \<open>False\<close> as \<open>0 <= -1\<close>.
\<close>

definition constr_of :: "cmp_result \<Rightarrow> cname \<Rightarrow> constr" where
  "constr_of c n =
     (case c of
        TempConstr l s r \<Rightarrow> \<lparr>c_lhs = l, c_sense = s, c_rhs = r, c_name = n\<rparr>
      | PyBool b \<Rightarrow>
          \<lparr>c_lhs = Num 0, c_sense = LE, c_rhs = Num (if b then 0 else - 1), c_name = n\<rparr>)"

definition addVar :: "real \<Rightarrow> real \<Rightarrow> var \<Rightarrow> lp_model \<Rightarrow> lp_model" where
  "addVar l u v m = m\<lparr>m_vars := m_vars m @ [\<lparr>v_var = v, v_lb = l, v_ub = u\<rparr>]\<rparr>"

definition addConstr :: "cmp_result \<Rightarrow> cname \<Rightarrow> lp_model \<Rightarrow> lp_model" where
  "addConstr c n m = m\<lparr>m_constrs := m_constrs m @ [constr_of c n]\<rparr>"

definition setObjective :: "expr \<Rightarrow> direction \<Rightarrow> lp_model \<Rightarrow> lp_model" where
  "setObjective e d m = m\<lparr>m_objective := Some (e, d)\<rparr>"

section \<open>Program state\<close>

text \<open>
  The objects \<open>solve_linear_program\<close> can reach: its arguments \<open>G\<close> and
  \<open>traffic_demand\<close>, the local \<open>model\<close> and dictionary \<open>x\<close>, and what it does to the
  outside (printing, the solver run, the IIS computation, the file it writes). Every
  statement is a step from state to state; a step that raises returns the exception
  with the state it was raised in.
\<close>

datatype event = Print string | Optimize | ComputeIIS | Write string

record pstate =
  graph :: digraph
  traffic_demand :: demands
  model :: lp_model
  x_dict :: "key \<rightharpoonup> var"
  trace :: "event list"

type_synonym 'a exec = "(error \<times> pstate) + 'a"

definition and_then :: "pstate exec \<Rightarrow> (pstate \<Rightarrow> 'a exec) \<Rightarrow> 'a exec" where
  "and_then r f = (case r of Inl es \<Rightarrow> Inl es | Inr s \<Rightarrow> f s)"

definition eval_in :: "pstate \<Rightarrow> error + 'a \<Rightarrow> ('a \<Rightarrow> 'b exec) \<Rightarrow> 'b exec" where
  "eval_in s r f = (case r of Inl e \<Rightarrow> Inl (e, s) | Inr a \<Rightarrow> f a)"

fun for_each :: "('a \<Rightarrow> pstate \<Rightarrow> pstate exec) \<Rightarrow> 'a list \<Rightarrow> pstate \<Rightarrow> pstate exec" where
  "for_each body [] s = Inr s"
| "for_each body (a # as) s =
     (case body a s of Inl es \<Rightarrow> Inl es | Inr s' \<Rightarrow> for_each body as s')"

definition x_get :: "pstate \<Rightarrow> key \<Rightarrow> error + expr" where
  "x_get s k = (case x_dict s k of None \<Rightarrow> Inl KeyError | Some v \<Rightarrow> Inr (V v))"

definition add_constr :: "cmp_result \<Rightarrow> cname \<Rightarrow> pstate \<Rightarrow> pstate exec" where
  "add_constr c n s = Inr (s\<lparr>model := addConstr c n (model s)\<rparr>)"

section \<open>solve_linear_program: building the model\<close>

text \<open>The decision variables: for every demand and every arc,
  \<open>x[i, j, u, v] = model.addVar(lb=0, ub=1, name=...)\<close>.\<close>

definition add_flow_var :: "node \<times> node \<Rightarrow> arc \<Rightarrow> pstate \<Rightarrow> pstate exec" where
  "add_flow_var d e s =
     (case d of (i, j) \<Rightarrow> case e of (u, v) \<Rightarrow>
        Inr (s\<lparr>model := addVar 0 1 (X (i, j, u, v)) (model s),
               x_dict := (x_dict s)((i, j, u, v) \<mapsto> X (i, j, u, v))\<rparr>))"

definition create_variables :: "pstate \<Rightarrow> pstate exec" where
  "create_variables s =
     for_each (\<lambda>(d, demand) s1. for_each (add_flow_var d) (G_edges (graph s1)) s1)
       (traffic_demand s) s"

text \<open>Flow conservation: per demand and node, \<open>inflow\<close> and \<open>outflow\<close> are sums of that
  demand's variables over the arcs into and out of the node; the branch on the node
  picks the constraint.\<close>

definition flow_constraint :: "node \<times> node \<Rightarrow> node \<Rightarrow> pstate \<Rightarrow> pstate exec" where
  "flow_constraint d n s =
     (case d of (i, j) \<Rightarrow>
        eval_in s (py_sum (\<lambda>(u, v). x_get s (i, j, u, v)) (in_edges (graph s) n)) (\<lambda>inflow.
        eval_in s (py_sum (\<lambda>(u, v). x_get s (i, j, u, v)) (out_edges (graph s) n)) (\<lambda>outflow.
          if n = i then add_constr (py_cmp (Sub outflow inflow) EQ (Num 1)) (Flow_src i j n) s
          else if n = j then add_constr (py_cmp (Sub inflow outflow) EQ (Num 1)) (Flow_dst i j n) s
          else add_constr (py_cmp (Sub inflow outflow) EQ (Num 0)) (Flow_mid i j n) s)))"

definition flow_conservation :: "pstate \<Rightarrow> pstate exec" where
  "flow_conservation s =
     for_each (\<lambda>(d, demand) s1. for_each (flow_constraint d) (nodes (graph s1)) s1)
       (traffic_demand s) s"

text \<open>The term \<open>demand * x[(i, j, u, v)]\<close> and the sum of these terms over all demands,
  for one arc.\<close>

definition demand_term :: "pstate \<Rightarrow> arc \<Rightarrow> (node \<times> node) \<times> int \<Rightarrow> error + expr" where
  "demand_term s e dd =
     (case dd of ((i, j), demand) \<Rightarrow> case e of (u, v) \<Rightarrow>
        (case x_get s (i, j, u, v) of Inl err \<Rightarrow> Inl err
         | Inr xv \<Rightarrow> int_times demand xv))"

definition arc_load :: "pstate \<Rightarrow> arc \<Rightarrow> error + expr" where
  "arc_load s e = py_sum (demand_term s e) (traffic_demand s)"

definition capacity_constraint :: "arc \<Rightarrow> pstate \<Rightarrow> pstate exec" where
  "capacity_constraint e s =
     eval_in s (arc_load s e) (\<lambda>load.
     eval_in s (G_attr (graph s) e) (\<lambda>a.
       add_constr (py_cmp load LE (Num (capacity a))) (Capacity_of (fst e) (snd e)) s))"

definition capacity_constraints :: "pstate \<Rightarrow> pstate exec" where
  "capacity_constraints s = for_each capacity_constraint (G_edges (graph s)) s"

text \<open>The objectives. The selector is compared with the three string literals of the
  source; any other string reaches the final \<open>else\<close> and raises \<open>ValueError\<close>.\<close>

definition cost_term :: "pstate \<Rightarrow> ((node \<times> node) \<times> int) \<times> arc \<Rightarrow> error + expr" where
  "cost_term s p =
     (case p of (((i, j), demand), (u, v)) \<Rightarrow>
        (case x_get s (i, j, u, v) of Inl err \<Rightarrow> Inl err
         | Inr xv \<Rightarrow>
            (case times_int xv demand of Inl err \<Rightarrow> Inl err
             | Inr xd \<Rightarrow>
                (case G_attr (graph s) (u, v) of Inl err \<Rightarrow> Inl err
                 | Inr a \<Rightarrow> Inr (Mul xd (Num (cost a)))))))"

definition utilisation_term :: "pstate \<Rightarrow> arc \<Rightarrow> error + expr" where
  "utilisation_term s e =
     (case arc_load s e of Inl err \<Rightarrow> Inl err
      | Inr load \<Rightarrow>
         (case G_attr (graph s) e of Inl err \<Rightarrow> Inl err
          | Inr a \<Rightarrow> py_div load (capacity a)))"

definition utilisation_constraint :: "arc \<Rightarrow> pstate \<Rightarrow> pstate exec" where
  "utilisation_constraint e s =
     eval_in s (utilisation_term s e) (\<lambda>ratio.
       add_constr (py_cmp (V Max_utilisation) GE ratio) (Utilisation_of (fst e) (snd e)) s)"

definition set_objective :: "string \<Rightarrow> pstate \<Rightarrow> pstate exec" where
  "set_objective objective s =
     (if objective = ''cost'' then
        eval_in s (py_sum (cost_term s)
                     (concat (map (\<lambda>dd. map (\<lambda>e. (dd, e)) (G_edges (graph s))) (traffic_demand s))))
          (\<lambda>total. Inr (s\<lparr>model := setObjective total MINIMIZE (model s)\<rparr>))
      else if objective = ''max_utlilization'' then
        and_then
          (for_each utilisation_constraint (G_edges (graph s))
             (s\<lparr>model := addVar 0 GRB_INFINITY Max_utilisation (model s)\<rparr>))
          (\<lambda>s1. Inr (s1\<lparr>model := setObjective (V Max_utilisation) MINIMIZE (model s1)\<rparr>))
      else if objective = ''avg_utilisation'' then
        eval_in s (py_sum (utilisation_term s) (G_edges (graph s))) (\<lambda>total.
        eval_in s (py_div total (of_nat (number_of_edges (graph s)))) (\<lambda>avg_utilisation.
          Inr (s\<lparr>model := setObjective avg_utilisation MINIMIZE (model s)\<rparr>)))
      else Inl (ValueError, s))"

text \<open>The state on entry (\<open>model = Model("Routing")\<close>, \<open>x = {}\<close>), the statements of
  \<open>solve_linear_program\<close> up to the capacity constraints, and up to \<open>model.optimize()\<close>.\<close>

definition entry_state :: "digraph \<Rightarrow> demands \<Rightarrow> pstate" where
  "entry_state g dem =
     \<lparr>graph = g, traffic_demand = dem, model = Model, x_dict = Map.empty, trace = []\<rparr>"

definition build_constraints :: "digraph \<Rightarrow> demands \<Rightarrow> pstate exec" where
  "build_constraints g dem =
     and_then (and_then (create_variables (entry_state g dem)) flow_conservation)
       capacity_constraints"

definition build_model :: "digraph \<Rightarrow> demands \<Rightarrow> string \<Rightarrow> pstate exec" where
  "build_model g dem objective = and_then (build_constraints g dem) (set_objective objective)"

section \<open>solve_linear_program: solving and reading the outcome\<close>

text \<open>
  The solver is a parameter: \<open>model.optimize()\<close> maps the model to a status, a value
  \<open>var.x\<close> for every variable and \<open>model.ObjVal\<close>. The function returns \<open>None\<close> or the
  pair \<open>(solution, model.ObjVal)\<close>, or raises. What it prints is recorded in the trace;
  a text is the list of its code points: 232 is the e with grave accent of the first
  message, 233 the e with acute accent of the second.
\<close>

datatype status = OPTIMAL | INFEASIBLE | UNBOUNDED | OTHER

record solver_out =
  out_status :: status
  out_x :: "var \<Rightarrow> real"
  ObjVal :: real

datatype retval = PyNone | Result "key \<rightharpoonup> real" real

definition msg_infeasible :: string where
  "msg_infeasible = ''Mod'' @ [char_of (232 :: nat)] @ ''le infaisable. Analyse des conflits...''"

definition msg_conflicts :: string where
  "msg_conflicts =
     ''Conflits enregistr'' @ [char_of (233 :: nat)] @ ''s dans infeasible.ilp''"

definition solution_of :: "(key \<rightharpoonup> var) \<Rightarrow> (var \<Rightarrow> real) \<Rightarrow> (key \<rightharpoonup> real)" where
  "solution_of xd val =
     (\<lambda>k. case xd k of None \<Rightarrow> None
          | Some v \<Rightarrow> if val v > 0 then Some (val v) else None)"

definition read_outcome :: "solver_out \<Rightarrow> pstate \<Rightarrow> (retval \<times> pstate) exec" where
  "read_outcome r s =
     (if out_status r = INFEASIBLE then
        Inr (PyNone,
             s\<lparr>trace := trace s @
                  [Print msg_infeasible, ComputeIIS, Write ''infeasible.ilp'',
                   Print msg_conflicts]\<rparr>)
      else if out_status r = OPTIMAL then
        Inr (Result (solution_of (x_dict s) (out_x r)) (ObjVal r), s)
      else Inl (Exception, s))"

definition solve_linear_program ::
  "(lp_model \<Rightarrow> solver_out) \<Rightarrow> digraph \<Rightarrow> demands \<Rightarrow> string \<Rightarrow> (retval \<times> pstate) exec" where
  "solve_linear_program solver g dem objective =
     and_then (build_model g dem objective)
       (\<lambda>s. read_outcome (solver (model s)) (s\<lparr>trace := trace s @ [Optimize]\<rparr>))"

section \<open>Persistence: save_to_csv and read_instance\<close>

text \<open>
  A CSV file is the list of its rows and a row the list of its cells, as \<open>csv.writer\<close>
  writes them and \<open>csv.reader\<close> yields them (no cell written here needs quoting); the
  empty row is the blank line. \<open>str\<close> and \<open>int\<close> on integers are the decimal notation;
  \<open>str\<close> and \<open>float\<close> on the other numbers are parameters (\<open>float\<close> gives \<open>None\<close> where
  Python raises \<open>ValueError\<close>).
\<close>

definition digit_char :: "nat \<Rightarrow> char" where
  "digit_char n = char_of (48 + n)"

fun str_nat :: "nat \<Rightarrow> string" where
  "str_nat n = (if n < 10 then [digit_char n] else str_nat (n div 10) @ [digit_char (n mod 10)])"

declare str_nat.simps [simp del]

definition str_int :: "int \<Rightarrow> string" where
  "str_int i = (if i < 0 then CHR ''-'' # str_nat (nat (- i)) else str_nat (nat i))"

definition is_digit :: "char \<Rightarrow> bool" where
  "is_digit c = (48 \<le> (of_char c :: nat) \<and> (of_char c :: nat) \<le> 57)"

definition digits_val :: "string \<Rightarrow> nat" where
  "digits_val ds = foldl (\<lambda>a c. 10 * a + (of_char c - 48)) 0 ds"

definition py_nat :: "string \<Rightarrow> error + nat" where
  "py_nat ds = (if ds \<noteq> [] \<and> list_all is_digit ds then Inr (digits_val ds) else Inl ValueError)"

text \<open>\<open>int(s)\<close> for the texts that occur here: an optional sign and decimal digits; anything
  else is a \<open>ValueError\<close>. (Python also accepts blanks around the number and single
  underscores between digits, which \<open>str\<close> never writes.)\<close>

definition py_int :: "string \<Rightarrow> error + int" where
  "py_int s =
     (if s \<noteq> [] \<and> hd s = CHR ''-'' then
        (case py_nat (tl s) of Inl e \<Rightarrow> Inl e | Inr n \<Rightarrow> Inr (- int n))
      else if s \<noteq> [] \<and> hd s = CHR ''+'' then
        (case py_nat (tl s) of Inl e \<Rightarrow> Inl e | Inr n \<Rightarrow> Inr (int n))
      else (case py_nat s of Inl e \<Rightarrow> Inl e | Inr n \<Rightarrow> Inr (int n)))"

definition py_float :: "(string \<Rightarrow> real option) \<Rightarrow> string \<Rightarrow> error + real" where
  "py_float pf s = (case pf s of None \<Rightarrow> Inl ValueError | Some r \<Rightarrow> Inr r)"

text \<open>\<open>row[k]\<close>: \<open>IndexError\<close> beyond the end of the row.\<close>

definition cell :: "string list \<Rightarrow> nat \<Rightarrow> error + string" where
  "cell row k = (if k < length row then Inr (row ! k) else Inl IndexError)"

definition seq :: "error + 'a \<Rightarrow> ('a \<Rightarrow> error + 'b) \<Rightarrow> error + 'b" where
  "seq r f = (case r of Inl e \<Rightarrow> Inl e | Inr a \<Rightarrow> f a)"

fun arc_rows :: "(real \<Rightarrow> string) \<Rightarrow> digraph \<Rightarrow> arc list \<Rightarrow> error + string list list" where
  "arc_rows sf g [] = Inr []"
| "arc_rows sf g ((u, v) # es) =
     seq (G_attr g (u, v)) (\<lambda>a.
     seq (arc_rows sf g es) (\<lambda>rows.
       Inr ([str_int u, str_int v, sf (capacity a), sf (cost a)] # rows)))"

definition save_to_csv ::
  "(real \<Rightarrow> string) \<Rightarrow> digraph \<Rightarrow> node list \<Rightarrow> demands \<Rightarrow> error + string list list" where
  "save_to_csv sf g S dem =
     seq (arc_rows sf g (G_edges g)) (\<lambda>arcs.
       Inr ([[''Source'', ''Target'', ''Capacity'', ''Cost'']] @ arcs @
            [[], [''entry'', ''Target'', ''Traffic Demand'']] @
            map (\<lambda>((i, j), demand). [str_int i, str_int j, str_int demand]) dem @
            [[], [''Subset S''], map str_int S]))"

text \<open>\<open>G.add_edge(u, v, capacity=c, cost=k)\<close> adds the end nodes that are new and sets the
  arc's attributes; \<open>d[k] = v\<close> on a dictionary keeps the place of a key that is there.
  (networkx yields \<open>G.edges\<close> grouped by tail node; the list here keeps insertion order.)\<close>

fun dict_set :: "('k \<times> 'v) list \<Rightarrow> 'k \<Rightarrow> 'v \<Rightarrow> ('k \<times> 'v) list" where
  "dict_set [] k v = [(k, v)]"
| "dict_set ((k', v') # kvs) k v =
     (if k' = k then (k, v) # kvs else (k', v') # dict_set kvs k v)"

definition add_node :: "node \<Rightarrow> node list \<Rightarrow> node list" where
  "add_node n ns = (if n \<in> set ns then ns else ns @ [n])"

definition add_edge :: "node \<Rightarrow> node \<Rightarrow> arc_attr \<Rightarrow> digraph \<Rightarrow> digraph" where
  "add_edge u v a g =
     \<lparr>nodes = add_node v (add_node u (nodes g)), edges = dict_set (edges g) (u, v) a\<rparr>"

datatype csv_section = Arcs | Traffic | Subset

fun map_int :: "string list \<Rightarrow> error + int list" where
  "map_int [] = Inr []"
| "map_int (c # cs) = seq (py_int c) (\<lambda>n. seq (map_int cs) (\<lambda>ns. Inr (n # ns)))"

text \<open>The loop of \<open>read_instance\<close> over the rows. The branch for \<open>entry\<close> sets the section
  and, unlike its two neighbours, goes on to the section dispatch with the same row.
  \<open>S\<close> is assigned only right before \<open>break\<close>, so the loop returns it there and \<open>[]\<close> at
  the end of the file.\<close>

fun read_rows ::
  "(string \<Rightarrow> real option) \<Rightarrow> string list list \<Rightarrow> csv_section \<Rightarrow> digraph \<Rightarrow> demands \<Rightarrow>
     error + (digraph \<times> node list \<times> demands)" where
  "read_rows pf [] sec g dem = Inr (g, [], dem)"
| "read_rows pf (row # rows) sec g dem =
     (if row = [] then read_rows pf rows sec g dem
      else if hd row = ''Source'' then read_rows pf rows sec g dem
      else
        let sec1 = (if hd row = ''entry'' then Traffic else sec) in
        if hd row = ''Subset S'' then read_rows pf rows Subset g dem
        else
        (case sec1 of
           Arcs \<Rightarrow>
             seq (cell row 0) (\<lambda>c0. seq (py_int c0) (\<lambda>u.
             seq (cell row 1) (\<lambda>c1. seq (py_int c1) (\<lambda>v.
             seq (cell row 2) (\<lambda>c2. seq (py_float pf c2) (\<lambda>cap.
             seq (cell row 3) (\<lambda>c3. seq (py_float pf c3) (\<lambda>cst.
               read_rows pf rows Arcs (add_edge u v \<lparr>capacity = cap, cost = cst\<rparr> g) dem))))))))
         | Traffic \<Rightarrow>
             seq (cell row 2) (\<lambda>c2. seq (py_int c2) (\<lambda>demand.
             seq (cell row 0) (\<lambda>c0. seq (py_int c0) (\<lambda>i.
             seq (cell row 1) (\<lambda>c1. seq (py_int c1) (\<lambda>j.
               read_rows pf rows Traffic g (dict_set dem (i, j) demand)))))))
         | Subset \<Rightarrow> seq (map_int row) (\<lambda>S. Inr (g, S, dem))))"

definition read_instance ::
  "(string \<Rightarrow> real option) \<Rightarrow> string list list \<Rightarrow> error + (digraph \<times> node list \<times> demands)" where
  "read_instance pf rows = read_rows pf rows Arcs \<lparr>nodes = [], edges = []\<rparr> []"

section \<open>The model that gets built, in closed form\<close>

text \<open>
  What the statements above leave in the model, written as expressions of the graph and
  the demands: the declarations of the flow variables, the conservation constraint of a
  demand at a node, the capacity and utilisation constraints of an arc, the three
  objectives, and the state after the constraint statements and after the objective. The lemma
  \<open>build_model_iff\<close> below proves that \<open>build_model\<close> returns exactly this state.
\<close>

definition key_of :: "node \<times> node \<Rightarrow> arc \<Rightarrow> key" where
  "key_of d e = (fst d, snd d, fst e, snd e)"

definition sum_expr :: "expr list \<Rightarrow> expr" where
  "sum_expr ts = foldl Add (Num 0) ts"

definition flow_var_decl :: "node \<times> node \<Rightarrow> arc \<Rightarrow> var_decl" where
  "flow_var_decl d e = \<lparr>v_var = X (key_of d e), v_lb = 0, v_ub = 1\<rparr>"

definition flow_var_decls :: "demands \<Rightarrow> arc list \<Rightarrow> var_decl list" where
  "flow_var_decls ds es = concat (map (\<lambda>dd. map (flow_var_decl (fst dd)) es) ds)"

definition flow_keys :: "demands \<Rightarrow> arc list \<Rightarrow> key list" where
  "flow_keys ds es = concat (map (\<lambda>dd. map (key_of (fst dd)) es) ds)"

definition flow_sum :: "node \<times> node \<Rightarrow> arc list \<Rightarrow> expr" where
  "flow_sum d es = sum_expr (map (\<lambda>e. V (X (key_of d e))) es)"

definition flow_name :: "node \<times> node \<Rightarrow> node \<Rightarrow> cname" where
  "flow_name d n =
     (if n = fst d then Flow_src (fst d) (snd d) n
      else if n = snd d then Flow_dst (fst d) (snd d) n
      else Flow_mid (fst d) (snd d) n)"

definition flow_lhs :: "digraph \<Rightarrow> node \<times> node \<Rightarrow> node \<Rightarrow> expr" where
  "flow_lhs g d n =
     (if n = fst d then Sub (flow_sum d (out_edges g n)) (flow_sum d (in_edges g n))
      else Sub (flow_sum d (in_edges g n)) (flow_sum d (out_edges g n)))"

definition flow_rhs :: "node \<times> node \<Rightarrow> node \<Rightarrow> real" where
  "flow_rhs d n = (if n = fst d \<or> n = snd d then 1 else 0)"

definition flow_constr :: "digraph \<Rightarrow> node \<times> node \<Rightarrow> node \<Rightarrow> constr" where
  "flow_constr g d n =
     constr_of (py_cmp (flow_lhs g d n) EQ (Num (flow_rhs d n))) (flow_name d n)"

definition flow_constrs :: "digraph \<Rightarrow> demands \<Rightarrow> constr list" where
  "flow_constrs g ds = concat (map (\<lambda>dd. map (flow_constr g (fst dd)) (nodes g)) ds)"

definition attr_of :: "digraph \<Rightarrow> arc \<Rightarrow> arc_attr" where
  "attr_of g e = the (map_of (edges g) e)"

definition load_expr :: "demands \<Rightarrow> arc \<Rightarrow> expr" where
  "load_expr ds e =
     sum_expr (map (\<lambda>dd. Mul (Num (of_int (snd dd))) (V (X (key_of (fst dd) e)))) ds)"

definition cap_constr :: "digraph \<Rightarrow> demands \<Rightarrow> arc \<Rightarrow> constr" where
  "cap_constr g ds e =
     constr_of (py_cmp (load_expr ds e) LE (Num (capacity (attr_of g e))))
       (Capacity_of (fst e) (snd e))"

definition util_constr :: "digraph \<Rightarrow> demands \<Rightarrow> arc \<Rightarrow> constr" where
  "util_constr g ds e =
     \<lparr>c_lhs = V Max_utilisation, c_sense = GE,
      c_rhs = Div (load_expr ds e) (Num (capacity (attr_of g e))),
      c_name = Utilisation_of (fst e) (snd e)\<rparr>"

definition cost_expr :: "digraph \<Rightarrow> demands \<Rightarrow> expr" where
  "cost_expr g ds =
     sum_expr (map (\<lambda>(dd, e). Mul (Mul (V (X (key_of (fst dd) e))) (Num (of_int (snd dd))))
                                  (Num (cost (attr_of g e))))
                (concat (map (\<lambda>dd. map (\<lambda>e. (dd, e)) (G_edges g)) ds)))"

definition avg_expr :: "digraph \<Rightarrow> demands \<Rightarrow> expr" where
  "avg_expr g ds =
     Div (sum_expr (map (\<lambda>e. Div (load_expr ds e) (Num (capacity (attr_of g e)))) (G_edges g)))
         (Num (of_nat (number_of_edges g)))"

definition base_state :: "digraph \<Rightarrow> demands \<Rightarrow> pstate" where
  "base_state g ds =
     \<lparr>graph = g, traffic_demand = ds,
      model = \<lparr>m_vars = flow_var_decls ds (G_edges g),
               m_constrs = flow_constrs g ds @ map (cap_constr g ds) (G_edges g),
               m_objective = None\<rparr>,
      x_dict = (\<lambda>k. if k \<in> set (flow_keys ds (G_edges g)) then Some (X k) else None),
      trace = []\<rparr>"

definition with_objective :: "string \<Rightarrow> pstate \<Rightarrow> pstate" where
  "with_objective objective s =
     (let g = graph s; ds = traffic_demand s; m = model s in
      if objective = ''cost'' then s\<lparr>model := m\<lparr>m_objective := Some (cost_expr g ds, MINIMIZE)\<rparr>\<rparr>
      else if objective = ''max_utlilization'' then
        s\<lparr>model := m\<lparr>m_vars := m_vars m @ [\<lparr>v_var = Max_utilisation, v_lb = 0, v_ub = GRB_INFINITY\<rparr>],
                       m_constrs := m_constrs m @ map (util_constr g ds) (G_edges g),
                       m_objective := Some (V Max_utilisation, MINIMIZE)\<rparr>\<rparr>
      else s\<lparr>model := m\<lparr>m_objective := Some (avg_expr g ds, MINIMIZE)\<rparr>\<rparr>)"

text \<open>
  When the construction completes: as soon as there is an arc, every volume has to
  convert to a double; the two utilisation objectives divide by the capacities, and the
  average one by the number of arcs. A node without any arc has \<open>inflow\<close> and \<open>outflow\<close>
  both the plain number 0 (\<open>touched\<close> says it has an arc), so its conservation
  constraint is a Python \<open>bool\<close>; so is the capacity constraint of an arc when there is no
  demand. \<open>x_complete\<close> is the invariant that the dictionary \<open>x\<close> has an entry for every
  demand and arc.
\<close>

definition touched :: "digraph \<Rightarrow> node \<Rightarrow> bool" where
  "touched g n = (\<exists>((u, v), a) \<in> set (edges g). u = n \<or> v = n)"

definition caps_nonzero :: "digraph \<Rightarrow> bool" where
  "caps_nonzero g = (\<forall>e \<in> set (G_edges g). capacity (attr_of g e) \<noteq> 0)"

definition vols_fit :: "demands \<Rightarrow> bool" where
  "vols_fit ds = (\<forall>dd \<in> set ds. fits_double (snd dd))"

definition steps_ok :: "digraph \<Rightarrow> demands \<Rightarrow> bool" where
  "steps_ok g ds = (G_edges g \<noteq> [] \<longrightarrow> vols_fit ds)"

definition objective_ok :: "digraph \<Rightarrow> string \<Rightarrow> bool" where
  "objective_ok g objective =
     (if objective = ''cost'' then True
      else if objective = ''max_utlilization'' then caps_nonzero g
      else if objective = ''avg_utilisation'' then caps_nonzero g \<and> G_edges g \<noteq> []
      else False)"

definition build_ok :: "digraph \<Rightarrow> demands \<Rightarrow> string \<Rightarrow> bool" where
  "build_ok g ds objective = (steps_ok g ds \<and> objective_ok g objective)"

definition x_complete :: "pstate \<Rightarrow> bool" where
  "x_complete s = (\<forall>d \<in> fst ` set (traffic_demand s). \<forall>e \<in> set (G_edges (graph s)).
      x_dict s (key_of d e) = Some (X (key_of d e)))"

section \<open>Notions for stating the properties\<close>

text \<open>The state an execution ends in, with or without an exception, and the value or the
  exception it ends with; \<open>kept\<close>: the inputs and the trace are the same in two states.\<close>

definition state_of :: "pstate exec \<Rightarrow> pstate" where
  "state_of r = (case r of Inl (e, s) \<Rightarrow> s | Inr s \<Rightarrow> s)"

definition final_state :: "(retval \<times> pstate) exec \<Rightarrow> pstate" where
  "final_state r = (case r of Inl (e, s) \<Rightarrow> s | Inr (v, s) \<Rightarrow> s)"

definition outcome_of :: "(retval \<times> pstate) exec \<Rightarrow> error + retval" where
  "outcome_of r = (case r of Inl (e, s) \<Rightarrow> Inl e | Inr (v, s) \<Rightarrow> Inr v)"

definition returned_solution :: "(retval \<times> pstate) exec \<Rightarrow> (key \<rightharpoonup> real)" where
  "returned_solution r = (case r of Inr (Result sol obj, s) \<Rightarrow> sol | _ \<Rightarrow> Map.empty)"

definition kept :: "pstate \<Rightarrow> pstate \<Rightarrow> bool" where
  "kept s t = (graph t = graph s \<and> traffic_demand t = traffic_demand s \<and> trace t = trace s)"

text \<open>A valuation of the variables satisfies a constraint.\<close>

definition satisfies :: "(var \<Rightarrow> real) \<Rightarrow> constr \<Rightarrow> bool" where
  "satisfies val c = holds (c_sense c) (expr_val val (c_lhs c)) (expr_val val (c_rhs c))"

text \<open>
  The names of the conservation constraints of a demand at a node; the value, under a
  valuation of the variables, of the sum of a demand's variables over the arcs that end
  (inflow) or start (outflow) at a node; the demand a variable, and
  a conservation constraint, belongs to; a constraint couples demands when it holds
  variables of two different demands; the sum of the left-hand sides of the
  conservation constraints of one demand.
\<close>

definition flow_names :: "node \<times> node \<Rightarrow> node \<Rightarrow> cname set" where
  "flow_names d n = {Flow_src (fst d) (snd d) n, Flow_dst (fst d) (snd d) n, Flow_mid (fst d) (snd d) n}"

definition inflow_val :: "(var \<Rightarrow> real) \<Rightarrow> digraph \<Rightarrow> node \<times> node \<Rightarrow> node \<Rightarrow> real" where
  "inflow_val val g d n =
     (\<Sum>(u, v)\<leftarrow>map fst (edges g). if v = n then val (X (fst d, snd d, u, v)) else 0)"

definition outflow_val :: "(var \<Rightarrow> real) \<Rightarrow> digraph \<Rightarrow> node \<times> node \<Rightarrow> node \<Rightarrow> real" where
  "outflow_val val g d n =
     (\<Sum>(u, v)\<leftarrow>map fst (edges g). if u = n then val (X (fst d, snd d, u, v)) else 0)"

definition var_demand :: "var \<Rightarrow> (node \<times> node) option" where
  "var_demand w = (case w of X (i, j, u, v) \<Rightarrow> Some (i, j) | Max_utilisation \<Rightarrow> None)"

definition constr_vars :: "constr \<Rightarrow> var list" where
  "constr_vars c = vars_of (c_lhs c) @ vars_of (c_rhs c)"

definition couples :: "constr \<Rightarrow> bool" where
  "couples c =
     (\<exists>v \<in> set (constr_vars c). \<exists>w \<in> set (constr_vars c).
        var_demand v \<noteq> None \<and> var_demand w \<noteq> None \<and> var_demand v \<noteq> var_demand w)"

definition flow_demand :: "cname \<Rightarrow> (node \<times> node) option" where
  "flow_demand nm =
     (case nm of
        Flow_src i j n \<Rightarrow> Some (i, j)
      | Flow_dst i j n \<Rightarrow> Some (i, j)
      | Flow_mid i j n \<Rightarrow> Some (i, j)
      | Capacity_of u v \<Rightarrow> None
      | Utilisation_of u v \<Rightarrow> None)"

definition flow_lhs_sum :: "lp_model \<Rightarrow> node \<times> node \<Rightarrow> (var \<Rightarrow> real) \<Rightarrow> real" where
  "flow_lhs_sum m d val =
     (\<Sum>c\<leftarrow>[c \<leftarrow> m_constrs m. flow_demand (c_name c) = Some d]. expr_val val (c_lhs c))"

text \<open>A text that starts like a number, and the row \<open>save_to_csv\<close> writes for an arc.\<close>

definition numeric_head :: "string \<Rightarrow> bool" where
  "numeric_head s = (s \<noteq> [] \<and> (hd s = CHR ''-'' \<or> is_digit (hd s)))"

definition arc_row :: "(real \<Rightarrow> string) \<Rightarrow> digraph \<Rightarrow> arc \<Rightarrow> string list" where
  "arc_row sf g e =
     [str_int (fst e), str_int (snd e), sf (capacity (attr_of g e)), sf (cost (attr_of g e))]"

section \<open>Instances\<close>

text \<open>
  The directed cycle on three nodes with capacity 5 and cost 1 on every arc; the graph
  with the single arc \<open>(0, 1)\<close>; that graph with a third node that has no arc; two nodes
  without any arc; a solver that reports a given status and gives every variable the
  same value.
\<close>

definition cycle3 :: digraph where
  "cycle3 = \<lparr>nodes = [0, 1, 2],
             edges = [((0, 1), \<lparr>capacity = 5, cost = 1\<rparr>),
                      ((1, 2), \<lparr>capacity = 5, cost = 1\<rparr>),
                      ((2, 0), \<lparr>capacity = 5, cost = 1\<rparr>)]\<rparr>"

definition one_arc :: digraph where
  "one_arc = \<lparr>nodes = [0, 1], edges = [((0, 1), \<lparr>capacity = 2, cost = 5\<rparr>)]\<rparr>"

definition isolated3 :: digraph where
  "isolated3 = \<lparr>nodes = [0, 1, 2], edges = [((0, 1), \<lparr>capacity = 5, cost = 1\<rparr>)]\<rparr>"

definition two_nodes :: digraph where
  "two_nodes = \<lparr>nodes = [0, 1], edges = []\<rparr>"

definition stub_solver :: "status \<Rightarrow> real \<Rightarrow> lp_model \<Rightarrow> solver_out" where
  "stub_solver st v m = \<lparr>out_status = st, out_x = (\<lambda>_. v), ObjVal = 0\<rparr>"

section \<open>The statements, one by one\<close>

text \<open>The definitions that a run of the code on a concrete input unfolds.\<close>

lemmas run_defs =
  build_model_def build_constraints_def and_then_def create_variables_def entry_state_def
  G_edges_def add_flow_var_def addVar_def Model_def flow_conservation_def flow_constraint_def
  in_edges_def out_edges_def py_sum_def x_get_def eval_in_def py_cmp_def add_constr_def addConstr_def
  capacity_constraints_def capacity_constraint_def arc_load_def demand_term_def G_attr_def
  set_objective_def cost_term_def setObjective_def utilisation_constraint_def utilisation_term_def
  py_div_def number_of_edges_def solve_linear_program_def read_outcome_def solution_of_def
  constr_of_def int_times_def times_int_def fits_double_def


lemma for_each_append:
  "for_each body (as @ bs) s = and_then (for_each body as s) (for_each body bs)"
  by (induction as arbitrary: s) (auto simp: and_then_def split: sum.splits)

lemma py_sum_from_ok:
  "(\<And>a. a \<in> set as \<Longrightarrow> f a = Inr (t a)) \<Longrightarrow> py_sum_from acc f as = Inr (foldl Add acc (map t as))"
  by (induction as arbitrary: acc) auto

lemma py_sum_ok:
  "(\<And>a. a \<in> set as \<Longrightarrow> f a = Inr (t a)) \<Longrightarrow> py_sum f as = Inr (sum_expr (map t as))"
  by (simp add: py_sum_def sum_expr_def py_sum_from_ok)

lemma add_flow_var_eq:
  "add_flow_var d e s =
     Inr (s\<lparr>model := (model s)\<lparr>m_vars := m_vars (model s) @ [flow_var_decl d e]\<rparr>,
            x_dict := (x_dict s)(key_of d e \<mapsto> X (key_of d e))\<rparr>)"
  by (simp add: add_flow_var_def key_of_def addVar_def flow_var_decl_def split: prod.splits)

lemma for_each_Cons_ok: "body a s = Inr s1 \<Longrightarrow> for_each body (a # as) s = for_each body as s1"
  by simp

lemma for_each_Cons_fail: "body a s = Inl es \<Longrightarrow> for_each body (a # as) s = Inl es"
  by simp

lemma add_flow_vars_arcs:
  "for_each (add_flow_var d) es s =
     Inr (s\<lparr>model := (model s)\<lparr>m_vars := m_vars (model s) @ map (flow_var_decl d) es\<rparr>,
            x_dict := (\<lambda>k. if k \<in> key_of d ` set es then Some (X k) else x_dict s k)\<rparr>)"
proof (induction es arbitrary: s)
  case Nil
  show ?case by simp
next
  case (Cons e es)
  have eq: "(\<lambda>k. if k \<in> key_of d ` set es then Some (X k)
              else ((x_dict s)(key_of d e \<mapsto> X (key_of d e))) k) =
        (\<lambda>k. if k \<in> key_of d ` set (e # es) then Some (X k) else x_dict s k)"
    by (auto simp: fun_eq_iff)
  show ?case
    unfolding for_each_Cons_ok[of "add_flow_var d" e s, OF add_flow_var_eq] Cons
    by (auto simp: fun_eq_iff cong: if_cong)
qed

lemma create_variables_loop:
  "for_each (\<lambda>(d, demand) s1. for_each (add_flow_var d) (G_edges (graph s1)) s1) ds s =
     Inr (s\<lparr>model := (model s)\<lparr>m_vars := m_vars (model s) @ flow_var_decls ds (G_edges (graph s))\<rparr>,
            x_dict := (\<lambda>k. if k \<in> set (flow_keys ds (G_edges (graph s))) then Some (X k)
                            else x_dict s k)\<rparr>)"
proof (induction ds arbitrary: s)
  case Nil
  show ?case by (simp add: flow_var_decls_def flow_keys_def)
next
  case (Cons dd ds)
  obtain d demand where dd: "dd = (d, demand)" by (cases dd)
  show ?case
    unfolding dd
    apply (subst for_each_Cons_ok[where ?s1.0 = "s\<lparr>model := (model s)\<lparr>m_vars := m_vars (model s) @ map (flow_var_decl d) (G_edges (graph s))\<rparr>,
            x_dict := (\<lambda>k. if k \<in> key_of d ` set (G_edges (graph s)) then Some (X k) else x_dict s k)\<rparr>"])
     apply (simp add: add_flow_vars_arcs)
    apply (subst Cons)
    apply (auto simp: fun_eq_iff flow_var_decls_def flow_keys_def cong: if_cong)
    done
qed

lemma create_variables_eq:
  "create_variables s =
     Inr (s\<lparr>model := (model s)\<lparr>m_vars := m_vars (model s) @ flow_var_decls (traffic_demand s) (G_edges (graph s))\<rparr>,
            x_dict := (\<lambda>k. if k \<in> set (flow_keys (traffic_demand s) (G_edges (graph s))) then Some (X k)
                            else x_dict s k)\<rparr>)"
  unfolding create_variables_def by (rule create_variables_loop)

lemma is_num_foldl_Add: "is_num (foldl Add acc ts) = (is_num acc \<and> (\<forall>t \<in> set ts. is_num t))"
  by (induction ts arbitrary: acc) auto

lemma is_num_flow_sum: "is_num (flow_sum d es) = (es = [])"
  by (cases es) (auto simp: flow_sum_def sum_expr_def is_num_foldl_Add)

lemma flow_py_sum:
  assumes "\<forall>e \<in> set es. x_dict s (key_of d e) = Some (X (key_of d e))"
  shows "py_sum (\<lambda>(u, v). x_get s (fst d, snd d, u, v)) es = Inr (flow_sum d es)"
  unfolding flow_sum_def
  by (rule py_sum_ok) (use assms in \<open>auto simp: x_get_def key_of_def\<close>)

lemma flow_constraint_eq:
  assumes "\<forall>e \<in> set (G_edges (graph s)). x_dict s (key_of d e) = Some (X (key_of d e))"
  shows "flow_constraint d n s =
     Inr (s\<lparr>model := (model s)\<lparr>m_constrs := m_constrs (model s) @ [flow_constr (graph s) d n]\<rparr>\<rparr>)"
proof -
  have i: "py_sum (\<lambda>(u, v). x_get s (fst d, snd d, u, v)) (in_edges (graph s) n) = Inr (flow_sum d (in_edges (graph s) n))"
    by (rule flow_py_sum) (use assms in \<open>auto simp: in_edges_def\<close>)
  have out: "py_sum (\<lambda>(u, v). x_get s (fst d, snd d, u, v)) (out_edges (graph s) n) = Inr (flow_sum d (out_edges (graph s) n))"
    by (rule flow_py_sum) (use assms in \<open>auto simp: out_edges_def\<close>)
  show ?thesis
    by (cases d)
      (use i out in \<open>auto simp: flow_constraint_def eval_in_def add_constr_def addConstr_def
         flow_constr_def flow_lhs_def flow_rhs_def flow_name_def\<close>)
qed

lemma for_each_Cons_iff:
  "(for_each body (a # as) s = Inr s') = (\<exists>s1. body a s = Inr s1 \<and> for_each body as s1 = Inr s')"
  by (auto split: sum.splits)

lemma flow_inner:
  assumes "\<forall>e \<in> set (G_edges (graph s)). x_dict s (key_of d e) = Some (X (key_of d e))"
  shows "for_each (flow_constraint d) ns s =
         Inr (s\<lparr>model := (model s)\<lparr>m_constrs := m_constrs (model s) @ map (flow_constr (graph s) d) ns\<rparr>\<rparr>)"
  using assms
proof (induction ns arbitrary: s)
  case Nil
  show ?case by simp
next
  case (Cons n ns)
  let ?s1 = "s\<lparr>model := (model s)\<lparr>m_constrs := m_constrs (model s) @ [flow_constr (graph s) d n]\<rparr>\<rparr>"
  have step: "flow_constraint d n s = Inr ?s1"
    by (rule flow_constraint_eq[OF Cons.prems])
  have "\<forall>e \<in> set (G_edges (graph ?s1)). x_dict ?s1 (key_of d e) = Some (X (key_of d e))"
    using Cons.prems by simp
  from Cons.IH[OF this] show ?case
    unfolding for_each_Cons_ok[of "flow_constraint d" n s, OF step]
    by simp
qed

lemma flow_outer:
  assumes "\<forall>dd \<in> set ds. \<forall>e \<in> set (G_edges (graph s)).
             x_dict s (key_of (fst dd) e) = Some (X (key_of (fst dd) e))"
  shows "for_each (\<lambda>(d, demand) s1. for_each (flow_constraint d) (nodes (graph s1)) s1) ds s =
         Inr (s\<lparr>model := (model s)\<lparr>m_constrs := m_constrs (model s) @ flow_constrs (graph s) ds\<rparr>\<rparr>)"
  using assms
proof (induction ds arbitrary: s)
  case Nil
  show ?case by (simp add: flow_constrs_def)
next
  case (Cons dd ds)
  obtain d demand where dd: "dd = (d, demand)" by (cases dd)
  let ?body = "\<lambda>(d, demand) s1. for_each (flow_constraint d) (nodes (graph s1)) s1"
  have xd: "\<forall>e \<in> set (G_edges (graph s)). x_dict s (key_of d e) = Some (X (key_of d e))"
    using Cons.prems dd by simp
  let ?s1 = "s\<lparr>model := (model s)\<lparr>m_constrs := m_constrs (model s) @ map (flow_constr (graph s) d) (nodes (graph s))\<rparr>\<rparr>"
  have step: "?body dd s = Inr ?s1"
    using flow_inner[OF xd, of "nodes (graph s)"] dd by simp
  have "\<forall>dd \<in> set ds. \<forall>e \<in> set (G_edges (graph ?s1)).
             x_dict ?s1 (key_of (fst dd) e) = Some (X (key_of (fst dd) e))"
    using Cons.prems by simp
  from Cons.IH[OF this] show ?case
    unfolding for_each_Cons_ok[of ?body dd s, OF step]
    using dd by (simp add: flow_constrs_def)
qed

lemma constr_loop:
  assumes body: "\<And>a s. a \<in> set as \<Longrightarrow> P s \<Longrightarrow>
            body a s = (if ok a then Inr (s\<lparr>model := (model s)\<lparr>m_constrs := m_constrs (model s) @ [c a]\<rparr>\<rparr>)
                        else Inl (err a, s))"
      and inv: "\<And>s cs. P s \<Longrightarrow> P (s\<lparr>model := (model s)\<lparr>m_constrs := cs\<rparr>\<rparr>)"
      and "P s"
  shows "(for_each body as s = Inr s') =
         ((\<forall>a \<in> set as. ok a) \<and>
          s' = s\<lparr>model := (model s)\<lparr>m_constrs := m_constrs (model s) @ map c as\<rparr>\<rparr>)"
  using body \<open>P s\<close>
proof (induction as arbitrary: s)
  case Nil
  show ?case by auto
next
  case (Cons a as)
  show ?case
  proof (cases "ok a")
    case True
    let ?s1 = "s\<lparr>model := (model s)\<lparr>m_constrs := m_constrs (model s) @ [c a]\<rparr>\<rparr>"
    have step: "body a s = Inr ?s1"
      using Cons.prems(1)[of a s] Cons.prems(2) True by simp
    have "P ?s1" using inv[OF Cons.prems(2)] .
    from Cons.IH[OF _ this] Cons.prems(1) show ?thesis
      unfolding for_each_Cons_ok[of body a s, OF step]
      using True by simp
  next
    case False
    have "body a s = Inl (err a, s)"
      using Cons.prems(1)[of a s] Cons.prems(2) False by simp
    then show ?thesis
      unfolding for_each_Cons_iff using False by simp
  qed
qed

lemma G_attr_eq: "e \<in> set (G_edges g) \<Longrightarrow> G_attr g e = Inr (attr_of g e)"
proof -
  assume "e \<in> set (G_edges g)"
  then have "map_of (edges g) e \<noteq> None"
    by (simp add: G_edges_def map_of_eq_None_iff)
  then show ?thesis
    by (auto simp: G_attr_def attr_of_def)
qed

lemma is_num_load_expr: "is_num (load_expr ds e) = (ds = [])"
  by (cases ds) (auto simp: load_expr_def sum_expr_def is_num_foldl_Add)

lemma py_sum_from_cond:
  assumes "\<And>a. a \<in> set as \<Longrightarrow> f a = (if ok a then Inr (t a) else Inl e)"
  shows "py_sum_from acc f as =
         (if \<forall>a \<in> set as. ok a then Inr (foldl Add acc (map t as)) else Inl e)"
  using assms by (induction as arbitrary: acc) auto

lemma arc_load_eq:
  assumes "x_complete s" "e \<in> set (G_edges (graph s))"
  shows "arc_load s e =
     (if vols_fit (traffic_demand s) then Inr (load_expr (traffic_demand s) e) else Inl TypeError)"
proof -
  have "\<And>dd. dd \<in> set (traffic_demand s) \<Longrightarrow>
          demand_term s e dd =
            (if fits_double (snd dd)
             then Inr (Mul (Num (of_int (snd dd))) (V (X (key_of (fst dd) e)))) else Inl TypeError)"
    using assms
    by (force simp: demand_term_def x_get_def x_complete_def key_of_def int_times_def
          split: prod.splits)
  from py_sum_from_cond[of "traffic_demand s" "demand_term s e" "\<lambda>dd. fits_double (snd dd)", OF this]
  show ?thesis
    by (simp add: arc_load_def py_sum_def load_expr_def sum_expr_def vols_fit_def)
qed

lemma capacity_constraint_eq:
  assumes "x_complete s" "e \<in> set (G_edges (graph s))"
  shows "capacity_constraint e s =
     (if vols_fit (traffic_demand s)
      then Inr (s\<lparr>model := (model s)\<lparr>m_constrs := m_constrs (model s) @
                       [cap_constr (graph s) (traffic_demand s) e]\<rparr>\<rparr>)
      else Inl (TypeError, s))"
  by (simp add: capacity_constraint_def arc_load_eq[OF assms] G_attr_eq[OF assms(2)] eval_in_def
        add_constr_def addConstr_def cap_constr_def)

lemma capacity_loop:
  assumes "x_complete s" "set es \<subseteq> set (G_edges (graph s))"
  shows "(for_each capacity_constraint es s = Inr s') =
         ((es \<noteq> [] \<longrightarrow> vols_fit (traffic_demand s)) \<and>
          s' = s\<lparr>model := (model s)\<lparr>m_constrs := m_constrs (model s) @
                   map (cap_constr (graph s) (traffic_demand s)) es\<rparr>\<rparr>)"
proof -
  let ?P = "\<lambda>t. x_complete t \<and> graph t = graph s \<and> traffic_demand t = traffic_demand s"
  have "(for_each capacity_constraint es s = Inr s') =
         ((\<forall>e \<in> set es. vols_fit (traffic_demand s)) \<and>
          s' = s\<lparr>model := (model s)\<lparr>m_constrs := m_constrs (model s) @
                   map (cap_constr (graph s) (traffic_demand s)) es\<rparr>\<rparr>)"
  proof (rule constr_loop[where P = ?P and err = "\<lambda>_. TypeError"])
    fix a t assume "a \<in> set es" "?P t"
    then show "capacity_constraint a t =
       (if vols_fit (traffic_demand s)
        then Inr (t\<lparr>model := (model t)\<lparr>m_constrs := m_constrs (model t) @
                       [cap_constr (graph s) (traffic_demand s) a]\<rparr>\<rparr>)
        else Inl (TypeError, t))"
      using capacity_constraint_eq[of t a] assms(2) by auto
  next
    fix t cs assume "?P t"
    then show "?P (t\<lparr>model := (model t)\<lparr>m_constrs := cs\<rparr>\<rparr>)"
      by (simp add: x_complete_def)
  next
    show "?P s" using assms by simp
  qed
  then show ?thesis by (cases es) auto
qed

lemma py_sum_from_fail:
  "a \<in> set as \<Longrightarrow> f a = Inl e \<Longrightarrow> \<exists>e'. py_sum_from acc f as = Inl e'"
  by (induction as arbitrary: acc) (auto split: sum.splits)

lemma cost_sum_eq:
  assumes "x_complete s" "G_edges (graph s) \<noteq> [] \<longrightarrow> vols_fit (traffic_demand s)"
  shows "py_sum (cost_term s)
           (concat (map (\<lambda>dd. map (\<lambda>e. (dd, e)) (G_edges (graph s))) (traffic_demand s))) =
         Inr (cost_expr (graph s) (traffic_demand s))"
  unfolding cost_expr_def
proof (rule py_sum_ok)
  fix p
  assume "p \<in> set (concat (map (\<lambda>dd. map (\<lambda>e. (dd, e)) (G_edges (graph s))) (traffic_demand s)))"
  then obtain dd e where p: "p = (dd, e)" "dd \<in> set (traffic_demand s)" "e \<in> set (G_edges (graph s))"
    by auto
  then have x: "x_dict s (key_of (fst dd) e) = Some (X (key_of (fst dd) e))"
    using assms(1) by (auto simp: x_complete_def)
  have f: "fits_double (snd dd)"
    using assms(2) p(2,3) by (auto simp: vols_fit_def)
  show "cost_term s p = Inr (case p of (dd, e) \<Rightarrow>
        Mul (Mul (V (X (key_of (fst dd) e))) (Num (of_int (snd dd)))) (Num (cost (attr_of (graph s) e))))"
    using p x f G_attr_eq[OF p(3)]
    by (cases dd; cases e) (auto simp: cost_term_def x_get_def key_of_def times_int_def)
qed

lemma utilisation_term_eq:
  assumes "x_complete s" "e \<in> set (G_edges (graph s))" "vols_fit (traffic_demand s)"
  shows "utilisation_term s e =
     (if capacity (attr_of (graph s) e) = 0 then Inl ZeroDivisionError
      else Inr (Div (load_expr (traffic_demand s) e) (Num (capacity (attr_of (graph s) e)))))"
  using assms(3)
  by (simp add: utilisation_term_def arc_load_eq[OF assms(1,2)] G_attr_eq[OF assms(2)] py_div_def)

lemma utilisation_constraint_eq:
  assumes "x_complete s" "e \<in> set (G_edges (graph s))" "vols_fit (traffic_demand s)"
  shows "utilisation_constraint e s =
     (if capacity (attr_of (graph s) e) \<noteq> 0
      then Inr (s\<lparr>model := (model s)\<lparr>m_constrs := m_constrs (model s) @
                       [util_constr (graph s) (traffic_demand s) e]\<rparr>\<rparr>)
      else Inl (ZeroDivisionError, s))"
  by (simp add: utilisation_constraint_def utilisation_term_eq[OF assms] eval_in_def
        add_constr_def addConstr_def py_cmp_def util_constr_def constr_of_def)

lemma utilisation_loop:
  assumes "x_complete s" "set es \<subseteq> set (G_edges (graph s))"
      and "G_edges (graph s) \<noteq> [] \<longrightarrow> vols_fit (traffic_demand s)"
  shows "(for_each utilisation_constraint es s = Inr s') =
         ((\<forall>e \<in> set es. capacity (attr_of (graph s) e) \<noteq> 0) \<and>
          s' = s\<lparr>model := (model s)\<lparr>m_constrs := m_constrs (model s) @
                   map (util_constr (graph s) (traffic_demand s)) es\<rparr>\<rparr>)"
proof -
  let ?P = "\<lambda>t. x_complete t \<and> graph t = graph s \<and> traffic_demand t = traffic_demand s"
  show ?thesis
  proof (rule constr_loop[where P = ?P and err = "\<lambda>_. ZeroDivisionError"])
    fix a t assume a: "a \<in> set es" "?P t"
    then have "vols_fit (traffic_demand t)"
      using assms(2,3) by auto
    with a show "utilisation_constraint a t =
       (if capacity (attr_of (graph s) a) \<noteq> 0
        then Inr (t\<lparr>model := (model t)\<lparr>m_constrs := m_constrs (model t) @
                       [util_constr (graph s) (traffic_demand s) a]\<rparr>\<rparr>)
        else Inl (ZeroDivisionError, t))"
      using utilisation_constraint_eq[of t a] assms(2) by auto
  next
    fix t cs assume "?P t"
    then show "?P (t\<lparr>model := (model t)\<lparr>m_constrs := cs\<rparr>\<rparr>)"
      by (simp add: x_complete_def)
  next
    show "?P s" using assms by simp
  qed
qed

lemma utilisation_sum:
  assumes "x_complete s" "G_edges (graph s) \<noteq> [] \<longrightarrow> vols_fit (traffic_demand s)"
  shows "(py_sum (utilisation_term s) (G_edges (graph s)) = Inr tot) =
         (caps_nonzero (graph s) \<and>
          tot = sum_expr (map (\<lambda>e. Div (load_expr (traffic_demand s) e)
                                        (Num (capacity (attr_of (graph s) e)))) (G_edges (graph s))))"
proof -
  have "\<And>e. e \<in> set (G_edges (graph s)) \<Longrightarrow>
          utilisation_term s e =
            (if capacity (attr_of (graph s) e) \<noteq> 0
             then Inr (Div (load_expr (traffic_demand s) e) (Num (capacity (attr_of (graph s) e))))
             else Inl ZeroDivisionError)"
    using assms by (auto simp: utilisation_term_eq)
  from py_sum_from_cond[of "G_edges (graph s)" "utilisation_term s"
      "\<lambda>e. capacity (attr_of (graph s) e) \<noteq> 0", OF this]
  show ?thesis
    by (auto simp: py_sum_def sum_expr_def caps_nonzero_def)
qed

lemma x_complete_model_update [simp]:
  "x_complete (s\<lparr>model := m\<rparr>) = x_complete s"
  by (simp add: x_complete_def)

lemma set_objective_iff:
  assumes "x_complete s" "G_edges (graph s) \<noteq> [] \<longrightarrow> vols_fit (traffic_demand s)"
  shows "(set_objective objective s = Inr s') =
         (objective_ok (graph s) objective \<and> s' = with_objective objective s)"
proof -
  consider (cost) "objective = ''cost''"
    | (mx) "objective = ''max_utlilization''"
    | (avg) "objective = ''avg_utilisation''"
    | (other) "objective \<noteq> ''cost''" "objective \<noteq> ''max_utlilization''" "objective \<noteq> ''avg_utilisation''"
    by blast
  then show ?thesis
  proof cases
    case cost
    then show ?thesis
      using cost_sum_eq[OF assms]
      by (auto simp: set_objective_def eval_in_def objective_ok_def with_objective_def setObjective_def Let_def)
  next
    case mx
    let ?s0 = "s\<lparr>model := addVar 0 GRB_INFINITY Max_utilisation (model s)\<rparr>"
    let ?s1 = "?s0\<lparr>model := (model ?s0)\<lparr>m_constrs := m_constrs (model ?s0) @
                   map (util_constr (graph ?s0) (traffic_demand ?s0)) (G_edges (graph s))\<rparr>\<rparr>"
    have "x_complete ?s0" "set (G_edges (graph s)) \<subseteq> set (G_edges (graph ?s0))"
      "G_edges (graph ?s0) \<noteq> [] \<longrightarrow> vols_fit (traffic_demand ?s0)"
      using assms by simp_all
    from utilisation_loop[OF this]
    have loop: "\<And>t. (for_each utilisation_constraint (G_edges (graph s)) ?s0 = Inr t) =
                    (caps_nonzero (graph s) \<and> t = ?s1)"
      by (simp add: caps_nonzero_def)
    have so: "set_objective objective s =
       and_then (for_each utilisation_constraint (G_edges (graph s)) ?s0)
          (\<lambda>s1. Inr (s1\<lparr>model := setObjective (V Max_utilisation) MINIMIZE (model s1)\<rparr>))"
      using mx by (simp add: set_objective_def)
    show ?thesis
    proof (cases "caps_nonzero (graph s)")
      case True
      then have "for_each utilisation_constraint (G_edges (graph s)) ?s0 = Inr ?s1"
        using loop[of ?s1] by simp
      then show ?thesis
        unfolding so using True mx
        by (auto simp: and_then_def objective_ok_def with_objective_def setObjective_def addVar_def Let_def)
    next
      case False
      then have "\<And>t. for_each utilisation_constraint (G_edges (graph s)) ?s0 \<noteq> Inr t"
        using loop by simp
      then show ?thesis
        unfolding so using False mx
        by (auto simp: and_then_def objective_ok_def split: sum.splits)
    qed
  next
    case avg
    let ?tot = "sum_expr (map (\<lambda>e. Div (load_expr (traffic_demand s) e)
                  (Num (capacity (attr_of (graph s) e)))) (G_edges (graph s)))"
    have so: "set_objective objective s =
        eval_in s (py_sum (utilisation_term s) (G_edges (graph s))) (\<lambda>tot.
        eval_in s (py_div tot (of_nat (number_of_edges (graph s)))) (\<lambda>avg_utilisation.
          Inr (s\<lparr>model := setObjective avg_utilisation MINIMIZE (model s)\<rparr>)))"
      using avg by (simp add: set_objective_def)
    have ne: "(number_of_edges (graph s) = 0) = (G_edges (graph s) = [])"
      by (simp add: number_of_edges_def G_edges_def)
    show ?thesis
    proof (cases "caps_nonzero (graph s)")
      case True
      then have "py_sum (utilisation_term s) (G_edges (graph s)) = Inr ?tot"
        using utilisation_sum[OF assms, of ?tot] by simp
      then show ?thesis
        unfolding so using True avg ne
        by (auto simp: eval_in_def py_div_def objective_ok_def with_objective_def
              setObjective_def Let_def avg_expr_def)
    next
      case False
      then have "\<And>t. py_sum (utilisation_term s) (G_edges (graph s)) \<noteq> Inr t"
        using utilisation_sum[OF assms] by simp
      then show ?thesis
        unfolding so using False avg
        by (auto simp: eval_in_def objective_ok_def split: sum.splits)
    qed
  next
    case other
    then show ?thesis
      by (simp add: set_objective_def objective_ok_def)
  qed
qed

lemma and_then_Inr_iff:
  "(and_then r f = Inr t) = (\<exists>s. r = Inr s \<and> f s = Inr t)"
  by (auto simp: and_then_def split: sum.splits)

lemma flow_steps:
  "and_then (create_variables (entry_state g ds)) flow_conservation =
     Inr ((base_state g ds)\<lparr>model := (model (base_state g ds))\<lparr>m_constrs := flow_constrs g ds\<rparr>\<rparr>)"
proof -
  let ?s1 = "(entry_state g ds)\<lparr>model := Model\<lparr>m_vars := flow_var_decls ds (G_edges g)\<rparr>,
       x_dict := (\<lambda>k. if k \<in> set (flow_keys ds (G_edges g)) then Some (X k) else None)\<rparr>"
  let ?s2 = "?s1\<lparr>model := (model ?s1)\<lparr>m_constrs := flow_constrs g ds\<rparr>\<rparr>"
  have s1: "create_variables (entry_state g ds) = Inr ?s1"
    by (simp add: create_variables_eq entry_state_def Model_def cong: if_cong)
  have xs1: "\<forall>dd \<in> set ds. \<forall>e \<in> set (G_edges g). x_dict ?s1 (key_of (fst dd) e) = Some (X (key_of (fst dd) e))"
    by (auto simp: flow_keys_def)
  have fl: "flow_conservation ?s1 = Inr ?s2"
    unfolding flow_conservation_def
    using flow_outer[of ds ?s1] xs1
    by (simp add: entry_state_def Model_def)
  have "?s2 = (base_state g ds)\<lparr>model := (model (base_state g ds))\<lparr>m_constrs := flow_constrs g ds\<rparr>\<rparr>"
    by (simp add: base_state_def entry_state_def Model_def)
  then show ?thesis
    unfolding s1 using fl by (simp add: and_then_def)
qed

lemma steps_iff:
  "(build_constraints g ds = Inr s) = (steps_ok g ds \<and> s = base_state g ds)"
proof -
  let ?s2 = "(base_state g ds)\<lparr>model := (model (base_state g ds))\<lparr>m_constrs := flow_constrs g ds\<rparr>\<rparr>"
  have xc: "x_complete ?s2"
    by (auto simp: x_complete_def base_state_def flow_keys_def)
  have cp: "\<And>t. (capacity_constraints ?s2 = Inr t) =
        ((G_edges g \<noteq> [] \<longrightarrow> vols_fit ds) \<and> t = base_state g ds)"
    unfolding capacity_constraints_def
    using capacity_loop[OF xc, of "G_edges g"]
    by (simp add: base_state_def)
  show ?thesis
    unfolding build_constraints_def flow_steps and_then_Inr_iff using cp
    by (auto simp: steps_ok_def)
qed

lemma steps_fail:
  assumes "\<not> steps_ok g ds"
  shows "build_constraints g ds =
     Inl (TypeError,
          (base_state g ds)\<lparr>model := (model (base_state g ds))\<lparr>m_constrs := flow_constrs g ds\<rparr>\<rparr>)"
proof -
  let ?s2 = "(base_state g ds)\<lparr>model := (model (base_state g ds))\<lparr>m_constrs := flow_constrs g ds\<rparr>\<rparr>"
  from assms obtain e es where es: "G_edges g = e # es" and nf: "\<not> vols_fit ds"
    by (cases "G_edges g") (auto simp: steps_ok_def)
  have xc: "x_complete ?s2"
    by (auto simp: x_complete_def base_state_def flow_keys_def)
  have g: "graph ?s2 = g" "traffic_demand ?s2 = ds"
    by (simp_all add: base_state_def)
  have "capacity_constraint e ?s2 = Inl (TypeError, ?s2)"
    using capacity_constraint_eq[OF xc, of e] nf es unfolding g by simp
  then have "capacity_constraints ?s2 = Inl (TypeError, ?s2)"
    unfolding capacity_constraints_def g es by (rule for_each_Cons_fail)
  then show ?thesis
    unfolding build_constraints_def flow_steps by (simp add: and_then_def)
qed

lemma base_state_facts:
  "x_complete (base_state g ds)" "graph (base_state g ds) = g"
  "traffic_demand (base_state g ds) = ds"
  by (auto simp: x_complete_def base_state_def flow_keys_def)

lemma build_model_iff:
  "(build_model g ds objective = Inr s) =
   (build_ok g ds objective \<and> s = with_objective objective (base_state g ds))"
proof (cases "steps_ok g ds")
  case True
  then have v: "G_edges (graph (base_state g ds)) \<noteq> [] \<longrightarrow> vols_fit (traffic_demand (base_state g ds))"
    by (simp add: base_state_facts steps_ok_def)
  show ?thesis
    unfolding build_model_def and_then_Inr_iff steps_iff
    using set_objective_iff[OF base_state_facts(1) v, of objective s] True
    by (auto simp: build_ok_def base_state_facts)
next
  case False
  then show ?thesis
    unfolding build_model_def and_then_Inr_iff steps_iff
    by (simp add: build_ok_def)
qed

lemma build_model_unrecognised:
  assumes "objective \<noteq> ''cost''" "objective \<noteq> ''max_utlilization''"
          "objective \<noteq> ''avg_utilisation''" "steps_ok g ds"
  shows "build_model g ds objective = Inl (ValueError, base_state g ds)"
proof -
  have "build_constraints g ds = Inr (base_state g ds)"
    using steps_iff[of g ds "base_state g ds"] assms(4) by simp
  then show ?thesis
    using assms(1-3) by (simp add: build_model_def and_then_def set_objective_def)
qed

section \<open>Frame: what the steps leave alone\<close>

lemma kept_refl: "kept s s"
  by (simp add: kept_def)

lemma kept_trans: "kept s t \<Longrightarrow> kept t u \<Longrightarrow> kept s u"
  by (simp add: kept_def)

lemma kept_model_update: "kept s (s\<lparr>model := m\<rparr>)"
  by (simp add: kept_def)

lemma for_each_kept:
  assumes "\<And>a s. kept s (state_of (body a s))"
  shows "kept s (state_of (for_each body as s))"
proof (induction as arbitrary: s)
  case Nil
  show ?case by (simp add: state_of_def kept_refl)
next
  case (Cons a as)
  show ?case
  proof (cases "body a s")
    case (Inl es)
    then show ?thesis
      using assms[of s a] by (simp add: state_of_def)
  next
    case (Inr t)
    then have "kept s t"
      using assms[of s a] by (simp add: state_of_def)
    then show ?thesis
      using Cons[of t] Inr by (auto intro: kept_trans)
  qed
qed

lemma and_then_kept:
  assumes "kept s (state_of r)" "\<And>t. kept t (state_of (f t))"
  shows "kept s (state_of (and_then r f))"
proof (cases r)
  case (Inl es)
  then show ?thesis using assms(1) by (simp add: and_then_def state_of_def)
next
  case (Inr t)
  then have "kept s t" using assms(1) by (simp add: state_of_def)
  then show ?thesis
    using assms(2)[of t] Inr by (auto simp: and_then_def intro: kept_trans)
qed

lemma eval_in_kept:
  assumes "\<And>a. kept s (state_of (f a))"
  shows "kept s (state_of (eval_in s r f))"
  using assms by (cases r) (simp_all add: eval_in_def state_of_def kept_refl)

lemma add_constr_kept: "kept s (state_of (add_constr c n s))"
  by (simp add: add_constr_def state_of_def kept_model_update)

lemma add_flow_var_kept: "kept s (state_of (add_flow_var d e s))"
  by (simp add: add_flow_var_def state_of_def kept_def split: prod.splits)

lemma create_variables_kept: "kept s (state_of (create_variables s))"
  unfolding create_variables_def
  by (rule for_each_kept) (auto intro!: for_each_kept add_flow_var_kept)

lemma flow_constraint_kept: "kept s (state_of (flow_constraint d n s))"
  unfolding flow_constraint_def
  by (cases d) (auto intro!: eval_in_kept add_constr_kept)

lemma flow_conservation_kept: "kept s (state_of (flow_conservation s))"
  unfolding flow_conservation_def
  by (rule for_each_kept) (auto intro!: for_each_kept flow_constraint_kept)

lemma capacity_constraints_kept: "kept s (state_of (capacity_constraints s))"
  unfolding capacity_constraints_def capacity_constraint_def
  by (intro for_each_kept eval_in_kept add_constr_kept)

lemma set_objective_kept: "kept s (state_of (set_objective objective s))"
proof -
  have u: "\<And>t. kept t (state_of (for_each utilisation_constraint (G_edges (graph s)) t))"
    unfolding utilisation_constraint_def
    by (intro for_each_kept eval_in_kept add_constr_kept)
  have v: "kept s (s\<lparr>model := addVar 0 GRB_INFINITY Max_utilisation (model s)\<rparr>)"
    by (rule kept_model_update)
  have mx: "kept s (state_of (and_then
          (for_each utilisation_constraint (G_edges (graph s))
             (s\<lparr>model := addVar 0 GRB_INFINITY Max_utilisation (model s)\<rparr>))
          (\<lambda>s1. Inr (s1\<lparr>model := setObjective (V Max_utilisation) MINIMIZE (model s1)\<rparr>))))"
    by (rule and_then_kept[OF kept_trans[OF v u]]) (simp add: state_of_def kept_model_update)
  have upd: "\<And>m. kept s (state_of (Inr (s\<lparr>model := m\<rparr>)))"
    by (simp add: state_of_def kept_model_update)
  have cst: "kept s (state_of (eval_in s (py_sum (cost_term s)
                     (concat (map (\<lambda>dd. map (\<lambda>e. (dd, e)) (G_edges (graph s))) (traffic_demand s))))
          (\<lambda>tot. Inr (s\<lparr>model := setObjective tot MINIMIZE (model s)\<rparr>))))"
    by (intro eval_in_kept upd)
  have avg: "kept s (state_of (eval_in s (py_sum (utilisation_term s) (G_edges (graph s))) (\<lambda>tot.
        eval_in s (py_div tot (of_nat (number_of_edges (graph s)))) (\<lambda>avg_utilisation.
          Inr (s\<lparr>model := setObjective avg_utilisation MINIMIZE (model s)\<rparr>)))))"
    by (intro eval_in_kept upd)
  have other: "kept s (state_of (Inl (ValueError, s)))"
    by (simp add: state_of_def kept_refl)
  show ?thesis
    unfolding set_objective_def
    using mx cst avg other by presburger
qed

lemma build_model_kept: "kept (entry_state g ds) (state_of (build_model g ds objective))"
  unfolding build_model_def build_constraints_def
  by (intro and_then_kept create_variables_kept flow_conservation_kept
        capacity_constraints_kept set_objective_kept)


text \<open>
  C9. Building the model and solving do not mutate the inputs: whatever the outcome (a
  returned value or an exception), the graph (its nodes, its arcs and their capacity and
  cost attributes) and the demand mapping (its keys and volumes) in the final state are
  the ones the function was called with.
\<close>

theorem inputs_not_mutated:
  "graph (final_state (solve_linear_program solver g ds objective)) = g \<and>
   traffic_demand (final_state (solve_linear_program solver g ds objective)) = ds"
proof (cases "build_model g ds objective")
  case (Inl es)
  then show ?thesis
    using build_model_kept[of g ds objective]
    by (auto simp: solve_linear_program_def and_then_def final_state_def state_of_def kept_def
          entry_state_def)
next
  case (Inr s)
  then show ?thesis
    using build_model_kept[of g ds objective]
    by (auto simp: solve_linear_program_def and_then_def final_state_def state_of_def kept_def
          entry_state_def read_outcome_def)
qed

section \<open>Reading the solver's outcome\<close>

lemma set_flow_keys:
  "set (flow_keys ds es) = {(i, j, u, v). (i, j) \<in> fst ` set ds \<and> (u, v) \<in> set es}"
  by (force simp: flow_keys_def key_of_def)

lemma built_x_dict:
  assumes "build_model g ds objective = Inr s"
  shows "x_dict s = (\<lambda>k. if k \<in> set (flow_keys ds (G_edges g)) then Some (X k) else None)"
    and "trace s = []" and "graph s = g" and "traffic_demand s = ds"
  using assms unfolding build_model_iff
  by (auto simp: with_objective_def base_state_def Let_def)

text \<open>
  C3, as the code has it. Once the model is built, the outcome of \<open>solve_linear_program\<close>
  is decided by the solver's status and is not a tagged result: on \<open>INFEASIBLE\<close> the
  function prints, computes the IIS, writes it to \<open>infeasible.ilp\<close> and returns \<open>None\<close>
  (the conflict set is in the file, not in the returned value); on \<open>OPTIMAL\<close> it returns
  the pair of the solution and \<open>ObjVal\<close>; on every other status it raises a plain
  \<open>Exception\<close>.
\<close>

theorem outcome_by_status:
  assumes "build_model g ds objective = Inr s"
  shows "outcome_of (solve_linear_program solver g ds objective) =
           (case out_status (solver (model s)) of
              INFEASIBLE \<Rightarrow> Inr PyNone
            | OPTIMAL \<Rightarrow> Inr (Result (solution_of (x_dict s) (out_x (solver (model s))))
                                     (ObjVal (solver (model s))))
            | UNBOUNDED \<Rightarrow> Inl Exception
            | OTHER \<Rightarrow> Inl Exception) \<and>
         trace (final_state (solve_linear_program solver g ds objective)) =
           (if out_status (solver (model s)) = INFEASIBLE
            then [Optimize, Print msg_infeasible, ComputeIIS, Write ''infeasible.ilp'',
                  Print msg_conflicts]
            else [Optimize])"
  using assms built_x_dict(2)[OF assms]
  by (cases "out_status (solver (model s))")
     (simp_all add: solve_linear_program_def and_then_def read_outcome_def outcome_of_def
        final_state_def)

theorem outcome_by_status_witness:
  "build_model two_nodes [((0, 1), 1)] ''cost'' =
     Inr (state_of (build_model two_nodes [((0, 1), 1)] ''cost'')) \<and>
   outcome_of (solve_linear_program (stub_solver INFEASIBLE 0) two_nodes [((0, 1), 1)] ''cost'') =
     Inr PyNone \<and>
   trace (final_state (solve_linear_program (stub_solver INFEASIBLE 0) two_nodes [((0, 1), 1)] ''cost'')) =
     [Optimize, Print msg_infeasible, ComputeIIS, Write ''infeasible.ilp'', Print msg_conflicts]"
proof -
  have h: "build_model two_nodes [((0, 1), 1)] ''cost'' =
     Inr (state_of (build_model two_nodes [((0, 1), 1)] ''cost''))"
    by (simp add: run_defs state_of_def two_nodes_def)
  show ?thesis
    using h outcome_by_status[OF h, of "stub_solver INFEASIBLE 0"]
    by (simp add: stub_solver_def)
qed

text \<open>
  C3 as stated fails: with a solver that reports \<open>INFEASIBLE\<close> the function returns
  \<open>None\<close>, and with one that reports \<open>UNBOUNDED\<close> it raises instead of returning.
\<close>

theorem no_tagged_result_counterexample:
  "outcome_of (solve_linear_program (stub_solver INFEASIBLE 0) cycle3 [((0, 2), 3)] ''cost'') =
     Inr PyNone \<and>
   outcome_of (solve_linear_program (stub_solver UNBOUNDED 0) cycle3 [((0, 2), 3)] ''cost'') =
     Inl Exception"
  by (simp add: run_defs state_of_def final_state_def outcome_of_def stub_solver_def cycle3_def)

text \<open>
  C8, as the code has it. On \<open>OPTIMAL\<close> the returned solution holds exactly the keys
  \<open>(i, j, u, v)\<close> of a demand and an arc whose variable has a value strictly greater than
  zero (the comparison is \<open>var.x > 0\<close>, against exactly zero), each mapped to that value,
  and comes with \<open>model.ObjVal\<close>.
\<close>

theorem optimal_solution:
  assumes "build_model g ds objective = Inr s"
      and "out_status (solver (model s)) = OPTIMAL"
  shows "outcome_of (solve_linear_program solver g ds objective) =
           Inr (Result
                 (\<lambda>k. if k \<in> {(i, j, u, v). (i, j) \<in> fst ` set ds \<and> (u, v) \<in> set (G_edges g)} \<and>
                          out_x (solver (model s)) (X k) > 0
                       then Some (out_x (solver (model s)) (X k)) else None)
                 (ObjVal (solver (model s))))"
proof -
  have "solution_of (x_dict s) (out_x (solver (model s))) =
        (\<lambda>k. if k \<in> {(i, j, u, v). (i, j) \<in> fst ` set ds \<and> (u, v) \<in> set (G_edges g)} \<and>
                          out_x (solver (model s)) (X k) > 0
                       then Some (out_x (solver (model s)) (X k)) else None)"
    unfolding built_x_dict(1)[OF assms(1)] set_flow_keys solution_of_def
    by (rule ext) simp
  then show ?thesis
    using assms
    by (simp add: solve_linear_program_def and_then_def read_outcome_def outcome_of_def)
qed

theorem optimal_solution_witness:
  "build_model isolated3 [((0, 1), 1)] ''cost'' =
     Inr (state_of (build_model isolated3 [((0, 1), 1)] ''cost'')) \<and>
   returned_solution (solve_linear_program (stub_solver OPTIMAL (1 / 2)) isolated3 [((0, 1), 1)] ''cost'')
     (0, 1, 0, 1) = Some (1 / 2) \<and>
   returned_solution (solve_linear_program (stub_solver OPTIMAL (1 / 2)) isolated3 [((0, 1), 1)] ''cost'')
     (0, 1, 1, 0) = None"
proof -
  have h: "build_model isolated3 [((0, 1), 1)] ''cost'' =
     Inr (state_of (build_model isolated3 [((0, 1), 1)] ''cost''))"
    by (simp add: run_defs state_of_def isolated3_def)
  have o: "out_status (stub_solver OPTIMAL (1 / 2)
             (model (state_of (build_model isolated3 [((0, 1), 1)] ''cost'')))) = OPTIMAL"
    by (simp add: stub_solver_def)
  have "\<And>r sol obj. outcome_of r = Inr (Result sol obj) \<Longrightarrow> returned_solution r = sol"
    by (auto simp: outcome_of_def returned_solution_def split: sum.splits prod.splits)
  from this[OF optimal_solution[of isolated3 "[((0, 1), 1)]" "''cost''" _ "stub_solver OPTIMAL (1 / 2)", OF h o]] h
  show ?thesis
    by (simp add: stub_solver_def isolated3_def G_edges_def)
qed

text \<open>
  C8 as stated fails: no positive threshold separates the values that are returned from
  those that are dropped, since every positive value, however small, is returned.
\<close>

theorem threshold_counterexample:
  "\<not> (\<exists>eps > 0. \<forall>v.
        (returned_solution (solve_linear_program (stub_solver OPTIMAL v) one_arc [((0, 1), 1)] ''cost'')
           (0, 1, 0, 1) \<noteq> None) = (v > eps))"
proof
  assume "\<exists>eps > 0. \<forall>v.
        (returned_solution (solve_linear_program (stub_solver OPTIMAL v) one_arc [((0, 1), 1)] ''cost'')
           (0, 1, 0, 1) \<noteq> None) = (v > eps)"
  then obtain eps :: real where eps: "eps > 0"
    and all: "\<And>v. (returned_solution (solve_linear_program (stub_solver OPTIMAL v) one_arc [((0, 1), 1)] ''cost'')
           (0, 1, 0, 1) \<noteq> None) = (v > eps)"
    by blast
  have "\<And>v. returned_solution (solve_linear_program (stub_solver OPTIMAL v) one_arc [((0, 1), 1)] ''cost'')
           (0, 1, 0, 1) = (if v > 0 then Some v else None)"
    by (simp add: run_defs state_of_def final_state_def outcome_of_def stub_solver_def returned_solution_def one_arc_def)
  with all[of "eps / 2"] eps show False
    by simp
qed

section \<open>The built model\<close>

lemma built_model:
  assumes "build_model g ds objective = Inr s"
  shows "m_vars (model s) = flow_var_decls ds (G_edges g) @
           (if objective = ''max_utlilization''
            then [\<lparr>v_var = Max_utilisation, v_lb = 0, v_ub = GRB_INFINITY\<rparr>] else [])"
    and "m_constrs (model s) = flow_constrs g ds @ map (cap_constr g ds) (G_edges g) @
           (if objective = ''max_utlilization'' then map (util_constr g ds) (G_edges g) else [])"
    and "m_objective (model s) =
           Some (if objective = ''cost'' then cost_expr g ds
                 else if objective = ''max_utlilization'' then V Max_utilisation
                 else avg_expr g ds, MINIMIZE)"
    and "build_ok g ds objective"
  using assms unfolding build_model_iff
  by (auto simp: with_objective_def base_state_def Let_def)

lemma expr_val_foldl_Add:
  "expr_val val (foldl Add acc ts) = expr_val val acc + sum_list (map (expr_val val) ts)"
  by (induction ts arbitrary: acc) auto

lemma expr_val_flow_sum:
  "expr_val val (flow_sum d es) = (\<Sum>e\<leftarrow>es. val (X (key_of d e)))"
  by (simp add: flow_sum_def sum_expr_def expr_val_foldl_Add comp_def)

lemma vars_of_foldl_Add:
  "vars_of (foldl Add acc ts) = vars_of acc @ concat (map vars_of ts)"
  by (induction ts arbitrary: acc) auto

lemma vars_of_flow_sum: "vars_of (flow_sum d es) = map (\<lambda>e. X (key_of d e)) es"
  by (simp add: flow_sum_def sum_expr_def vars_of_foldl_Add comp_def)

lemma filter_unique: "distinct xs \<Longrightarrow> x \<in> set xs \<Longrightarrow> filter (\<lambda>y. y = x) xs = [x]"
  by (induction xs) (auto simp: filter_empty_conv)

lemma concat_map_unique:
  "distinct (map f xs) \<Longrightarrow> x \<in> set xs \<Longrightarrow>
   concat (map (\<lambda>y. if f y = f x then h y else []) xs) = h x"
proof (induction xs)
  case Nil
  then show ?case by simp
next
  case (Cons a xs)
  show ?case
  proof (cases "a = x")
    case True
    then have "f x \<notin> f ` set xs" using Cons.prems by simp
    then have "\<forall>y \<in> set xs. f y \<noteq> f x" by (metis imageI)
    then have "concat (map (\<lambda>y. if f y = f x then h y else []) xs) = []"
      by (induction xs) auto
    then show ?thesis using True by simp
  next
    case False
    then have "x \<in> set xs" "f a \<noteq> f x" using Cons.prems by auto
    then show ?thesis using Cons by simp
  qed
qed

lemma c_name_constr_of [simp]: "c_name (constr_of c n) = n"
  by (simp add: constr_of_def split: cmp_result.splits)

lemma expr_val_is_num: "is_num e \<Longrightarrow> expr_val val e = expr_val (\<lambda>_. 0) e"
  by (induction e) auto

lemma constr_of_temp:
  "\<not> (is_num l \<and> is_num r) \<Longrightarrow>
   constr_of (py_cmp l s r) n = \<lparr>c_lhs = l, c_sense = s, c_rhs = r, c_name = n\<rparr>"
  by (auto simp: constr_of_def py_cmp_def)

lemma constr_of_bool:
  "is_num l \<Longrightarrow> is_num r \<Longrightarrow>
   constr_of (py_cmp l s r) n =
     \<lparr>c_lhs = Num 0, c_sense = LE,
      c_rhs = Num (if holds s (expr_val (\<lambda>_. 0) l) (expr_val (\<lambda>_. 0) r) then 0 else - 1),
      c_name = n\<rparr>"
  by (simp add: constr_of_def py_cmp_def)

lemma satisfies_constr_of:
  "satisfies val (constr_of (py_cmp l s r) n) = holds s (expr_val val l) (expr_val val r)"
proof (cases "is_num l \<and> is_num r")
  case True
  then have "expr_val val l = expr_val (\<lambda>_. 0) l" "expr_val val r = expr_val (\<lambda>_. 0) r"
    by (auto intro: expr_val_is_num)
  then show ?thesis
    using True by (simp add: constr_of_bool satisfies_def) (simp add: holds_def)
next
  case False
  then show ?thesis
    by (simp add: constr_of_temp satisfies_def)
qed

lemma vars_of_is_num: "is_num e \<Longrightarrow> vars_of e = []"
  by (induction e) auto

lemma constr_vars_constr_of:
  "constr_vars (constr_of (py_cmp l s r) n) = vars_of l @ vars_of r"
proof (cases "is_num l \<and> is_num r")
  case True
  then show ?thesis
    by (simp add: constr_of_bool constr_vars_def vars_of_is_num)
next
  case False
  then show ?thesis
    by (simp add: constr_of_temp constr_vars_def)
qed

lemma touched_iff: "touched g n = (in_edges g n \<noteq> [] \<or> out_edges g n \<noteq> [])"
  by (force simp: touched_def in_edges_def out_edges_def G_edges_def filter_empty_conv)

lemma sum_list_filter_arcs:
  "(\<Sum>e\<leftarrow>filter P es. f e) = (\<Sum>e\<leftarrow>es. if P e then f e else (0 :: real))"
  by (induction es) auto

lemma inflow_val_in_edges:
  "inflow_val val g d n = (\<Sum>(u, v)\<leftarrow>in_edges g n. val (X (fst d, snd d, u, v)))"
  unfolding inflow_val_def in_edges_def G_edges_def sum_list_filter_arcs
  by (rule arg_cong[where f = sum_list], rule map_cong) auto

lemma outflow_val_out_edges:
  "outflow_val val g d n = (\<Sum>(u, v)\<leftarrow>out_edges g n. val (X (fst d, snd d, u, v)))"
  unfolding outflow_val_def out_edges_def G_edges_def sum_list_filter_arcs
  by (rule arg_cong[where f = sum_list], rule map_cong) auto

lemma is_num_flow_lhs: "is_num (flow_lhs g d n) = (\<not> touched g n)"
  by (auto simp: flow_lhs_def is_num_flow_sum touched_iff)

lemma vars_of_flow_lhs:
  "set (vars_of (flow_lhs g d n)) \<subseteq> {X (key_of d e) | e. e \<in> set (G_edges g)}"
  by (auto simp: flow_lhs_def vars_of_flow_sum in_edges_def out_edges_def)

lemma flow_constr_touched:
  "touched g n \<Longrightarrow>
   flow_constr g d n = \<lparr>c_lhs = flow_lhs g d n, c_sense = EQ, c_rhs = Num (flow_rhs d n),
                          c_name = flow_name d n\<rparr>"
  by (simp add: flow_constr_def constr_of_temp is_num_flow_lhs)

lemma flow_constr_untouched:
  "\<not> touched g n \<Longrightarrow>
   flow_constr g d n = \<lparr>c_lhs = Num 0, c_sense = LE,
                          c_rhs = Num (if n = fst d \<or> n = snd d then - 1 else 0),
                          c_name = flow_name d n\<rparr>"
  by (simp add: flow_constr_def constr_of_bool is_num_flow_lhs)
     (auto simp: flow_lhs_def flow_rhs_def flow_sum_def sum_expr_def touched_iff holds_def)

lemma flow_constr_facts:
  "c_name (flow_constr g d n) = flow_name d n"
  "satisfies val (flow_constr g d n) = (expr_val val (flow_lhs g d n) = flow_rhs d n)"
  "constr_vars (flow_constr g d n) = vars_of (flow_lhs g d n)"
  by (simp_all add: flow_constr_def satisfies_constr_of constr_vars_constr_of holds_def)

lemma cap_constr_facts:
  "c_name (cap_constr g ds e) = Capacity_of (fst e) (snd e)"
  "c_sense (cap_constr g ds e) = LE"
  "satisfies val (cap_constr g ds e) = (expr_val val (load_expr ds e) \<le> capacity (attr_of g e))"
  "constr_vars (cap_constr g ds e) = vars_of (load_expr ds e)"
  by (simp_all add: cap_constr_def satisfies_constr_of constr_vars_constr_of holds_def)
     (simp add: constr_of_def py_cmp_def)

lemma cap_constr_demands:
  "ds \<noteq> [] \<Longrightarrow>
   cap_constr g ds e = \<lparr>c_lhs = load_expr ds e, c_sense = LE, c_rhs = Num (capacity (attr_of g e)),
                          c_name = Capacity_of (fst e) (snd e)\<rparr>"
  by (simp add: cap_constr_def constr_of_temp is_num_load_expr)

lemma cap_constr_no_demand:
  "cap_constr g [] e = \<lparr>c_lhs = Num 0, c_sense = LE,
                          c_rhs = Num (if 0 \<le> capacity (attr_of g e) then 0 else - 1),
                          c_name = Capacity_of (fst e) (snd e)\<rparr>"
  by (simp add: cap_constr_def constr_of_bool is_num_load_expr)
     (simp add: load_expr_def sum_expr_def holds_def)

lemma flow_name_mem: "(flow_name d' n' \<in> flow_names d n) = (d' = d \<and> n' = n)"
  by (auto simp: flow_name_def flow_names_def prod_eq_iff)

lemma filter_flow_constrs:
  assumes "distinct (map fst ds)" "distinct (nodes g)" "dd \<in> set ds" "n \<in> set (nodes g)"
  shows "filter (\<lambda>c. c_name c \<in> flow_names (fst dd) n) (flow_constrs g ds) = [flow_constr g (fst dd) n]"
proof -
  have inner: "\<And>d'. filter (\<lambda>c. c_name c \<in> flow_names (fst dd) n) (map (flow_constr g d') (nodes g)) =
        (if d' = fst dd then [flow_constr g (fst dd) n] else [])"
  proof -
    fix d'
    have "filter (\<lambda>c. c_name c \<in> flow_names (fst dd) n) (map (flow_constr g d') (nodes g)) =
          map (flow_constr g d') (filter (\<lambda>n'. d' = fst dd \<and> n' = n) (nodes g))"
      by (simp add: filter_map comp_def flow_constr_facts flow_name_mem)
    also have "\<dots> = (if d' = fst dd then [flow_constr g (fst dd) n] else [])"
      using filter_unique[OF assms(2,4)] by simp
    finally show "filter (\<lambda>c. c_name c \<in> flow_names (fst dd) n) (map (flow_constr g d') (nodes g)) =
        (if d' = fst dd then [flow_constr g (fst dd) n] else [])" .
  qed
  have "filter (\<lambda>c. c_name c \<in> flow_names (fst dd) n) (flow_constrs g ds) =
        concat (map (\<lambda>y. if fst y = fst dd then [flow_constr g (fst dd) n] else []) ds)"
    by (simp add: flow_constrs_def filter_concat comp_def inner)
  also have "\<dots> = [flow_constr g (fst dd) n]"
    by (rule concat_map_unique[OF assms(1,3)])
  finally show ?thesis .
qed

lemma flow_keys_product:
  "flow_keys ds es = map (\<lambda>(d, e). key_of d e) (List.product (map fst ds) es)"
  by (induction ds) (simp_all add: flow_keys_def comp_def)

lemma distinct_flow_keys:
  assumes "distinct (map fst ds)" "distinct es"
  shows "distinct (flow_keys ds es)"
  unfolding flow_keys_product
  by (rule iffD2[OF distinct_map], rule conjI[OF distinct_product[OF assms]])
     (auto simp: inj_on_def key_of_def prod_eq_iff)

lemma flow_var_decls_keys: "map v_var (flow_var_decls ds es) = map X (flow_keys ds es)"
  by (induction ds) (simp_all add: flow_var_decls_def flow_keys_def flow_var_decl_def comp_def)

lemma flow_keys_comprehension:
  "map X (flow_keys ds es) = [X (i, j, u, v). ((i, j), vol) \<leftarrow> ds, (u, v) \<leftarrow> es]"
  by (induction ds) (auto simp: flow_keys_def key_of_def split_def comp_def)

lemma flow_sum_vals:
  "(\<Sum>e\<leftarrow>es. val (X (key_of d e))) = (\<Sum>(u, v)\<leftarrow>es. val (X (fst d, snd d, u, v)))"
  by (simp add: key_of_def split_def)

lemma expr_val_flow_lhs:
  "expr_val val (flow_lhs g (i, j) n) =
     (if n = i then outflow_val val g (i, j) n - inflow_val val g (i, j) n
      else inflow_val val g (i, j) n - outflow_val val g (i, j) n)"
  by (simp add: flow_lhs_def expr_val_flow_sum flow_sum_vals inflow_val_in_edges outflow_val_out_edges)

text \<open>
  C1, as the code has it. In the model that \<open>solve_linear_program\<close> has built for a graph,
  a demand mapping and an objective (\<open>build_model_iff\<close> says when the construction
  completes), the variables other than the auxiliary one are one \<open>x[i, j, u, v]\<close> per
  demand and arc, pairwise different, each with bounds 0 and 1; and for every demand
  \<open>(i, j)\<close> and every node \<open>n\<close> exactly one constraint is named for that demand and node.
  It holds variables of that demand only, and a valuation satisfies it exactly when
  outflow minus inflow (at \<open>n = i\<close>; inflow minus outflow at every other node) equals 1 at
  \<open>i\<close> and at \<open>j\<close> and 0 elsewhere (the origin branch is tested first, as in the source).
  At a node that has an arc the stored row is that equality, with the sums on the left and
  the number on the right. At a node without any arc both sums are the number 0, the
  comparison is a Python \<open>bool\<close>, and the stored row is the inequality \<open>0 <= 0\<close> (an
  intermediate node) or \<open>0 <= -1\<close> (the origin or the destination).
\<close>

theorem flow_variables_and_conservation:
  assumes "build_model g ds objective = Inr s"
      and "distinct (map fst ds)" "distinct (G_edges g)" "distinct (nodes g)"
  shows "map v_var [vd \<leftarrow> m_vars (model s). v_var vd \<noteq> Max_utilisation] =
           [X (i, j, u, v). ((i, j), vol) \<leftarrow> ds, (u, v) \<leftarrow> G_edges g] \<and>
         distinct [X (i, j, u, v). ((i, j), vol) \<leftarrow> ds, (u, v) \<leftarrow> G_edges g] \<and>
         (\<forall>vd \<in> set (m_vars (model s)). v_var vd \<noteq> Max_utilisation \<longrightarrow> v_lb vd = 0 \<and> v_ub vd = 1) \<and>
         (\<forall>((i, j), vol) \<in> set ds. \<forall>n \<in> set (nodes g).
            \<exists>c. [c' \<leftarrow> m_constrs (model s). c_name c' \<in> flow_names (i, j) n] = [c] \<and>
                set (constr_vars c) \<subseteq> {X (i, j, u, v) | u v. (u, v) \<in> set (G_edges g)} \<and>
                (\<forall>val. satisfies val c =
                   ((if n = i then outflow_val val g (i, j) n - inflow_val val g (i, j) n
                     else inflow_val val g (i, j) n - outflow_val val g (i, j) n) =
                    (if n = i \<or> n = j then 1 else 0))) \<and>
                (if touched g n
                 then c_sense c = EQ \<and>
                      (\<forall>val. expr_val val (c_lhs c) =
                         (if n = i then outflow_val val g (i, j) n - inflow_val val g (i, j) n
                          else inflow_val val g (i, j) n - outflow_val val g (i, j) n)) \<and>
                      c_rhs c = Num (if n = i \<or> n = j then 1 else 0)
                 else c_lhs c = Num 0 \<and> c_sense c = LE \<and>
                      c_rhs c = Num (if n = i \<or> n = j then - 1 else 0)))"
proof -
  note m = built_model[OF assms(1)]
  have flowvar: "\<And>vd. vd \<in> set (flow_var_decls ds (G_edges g)) \<Longrightarrow>
            v_var vd \<noteq> Max_utilisation \<and> v_lb vd = 0 \<and> v_ub vd = 1"
    by (auto simp: flow_var_decls_def flow_var_decl_def)
  have "[vd \<leftarrow> m_vars (model s). v_var vd \<noteq> Max_utilisation] = flow_var_decls ds (G_edges g)"
    unfolding m(1) using flowvar by (auto simp: filter_id_conv)
  then have vars: "map v_var [vd \<leftarrow> m_vars (model s). v_var vd \<noteq> Max_utilisation] =
           [X (i, j, u, v). ((i, j), vol) \<leftarrow> ds, (u, v) \<leftarrow> G_edges g]"
    by (simp add: flow_var_decls_keys flow_keys_comprehension)
  have dist: "distinct [X (i, j, u, v). ((i, j), vol) \<leftarrow> ds, (u, v) \<leftarrow> G_edges g]"
    using distinct_flow_keys[OF assms(2,3)]
    unfolding flow_keys_comprehension[symmetric] by (simp add: distinct_map inj_on_def)
  have bounds: "\<forall>vd \<in> set (m_vars (model s)). v_var vd \<noteq> Max_utilisation \<longrightarrow> v_lb vd = 0 \<and> v_ub vd = 1"
    unfolding m(1) using flowvar by auto
  have cons: "\<forall>((i, j), vol) \<in> set ds. \<forall>n \<in> set (nodes g).
            \<exists>c. [c' \<leftarrow> m_constrs (model s). c_name c' \<in> flow_names (i, j) n] = [c] \<and>
                set (constr_vars c) \<subseteq> {X (i, j, u, v) | u v. (u, v) \<in> set (G_edges g)} \<and>
                (\<forall>val. satisfies val c =
                   ((if n = i then outflow_val val g (i, j) n - inflow_val val g (i, j) n
                     else inflow_val val g (i, j) n - outflow_val val g (i, j) n) =
                    (if n = i \<or> n = j then 1 else 0))) \<and>
                (if touched g n
                 then c_sense c = EQ \<and>
                      (\<forall>val. expr_val val (c_lhs c) =
                         (if n = i then outflow_val val g (i, j) n - inflow_val val g (i, j) n
                          else inflow_val val g (i, j) n - outflow_val val g (i, j) n)) \<and>
                      c_rhs c = Num (if n = i \<or> n = j then 1 else 0)
                 else c_lhs c = Num 0 \<and> c_sense c = LE \<and>
                      c_rhs c = Num (if n = i \<or> n = j then - 1 else 0))"
  proof (intro ballI, clarify)
    fix i j vol n
    assume dd: "((i, j), vol) \<in> set ds" and n: "n \<in> set (nodes g)"
    let ?c = "flow_constr g (i, j) n"
    have o1: "[c' \<leftarrow> map (cap_constr g ds) (G_edges g). c_name c' \<in> flow_names (i, j) n] = []"
      by (auto simp: filter_empty_conv cap_constr_facts flow_names_def)
    have o2: "[c' \<leftarrow> map (util_constr g ds) (G_edges g). c_name c' \<in> flow_names (i, j) n] = []"
      by (auto simp: filter_empty_conv util_constr_def flow_names_def)
    have one: "[c' \<leftarrow> m_constrs (model s). c_name c' \<in> flow_names (i, j) n] = [?c]"
      unfolding m(2)
      using filter_flow_constrs[OF assms(2,4) dd n] o1 o2 by simp
    have vs: "set (constr_vars ?c) \<subseteq> {X (i, j, u, v) | u v. (u, v) \<in> set (G_edges g)}"
      using vars_of_flow_lhs[of g "(i, j)" n]
      by (auto simp: flow_constr_facts key_of_def)
    have sat: "\<forall>val. satisfies val ?c =
                   ((if n = i then outflow_val val g (i, j) n - inflow_val val g (i, j) n
                     else inflow_val val g (i, j) n - outflow_val val g (i, j) n) =
                    (if n = i \<or> n = j then 1 else 0))"
      by (simp add: flow_constr_facts expr_val_flow_lhs flow_rhs_def)
    have row: "if touched g n
                 then c_sense ?c = EQ \<and>
                      (\<forall>val. expr_val val (c_lhs ?c) =
                         (if n = i then outflow_val val g (i, j) n - inflow_val val g (i, j) n
                          else inflow_val val g (i, j) n - outflow_val val g (i, j) n)) \<and>
                      c_rhs ?c = Num (if n = i \<or> n = j then 1 else 0)
                 else c_lhs ?c = Num 0 \<and> c_sense ?c = LE \<and>
                      c_rhs ?c = Num (if n = i \<or> n = j then - 1 else 0)"
    proof (cases "touched g n")
      case True
      then show ?thesis
        by (simp add: flow_constr_touched expr_val_flow_lhs flow_rhs_def)
    next
      case False
      then show ?thesis
        by (simp add: flow_constr_untouched)
    qed
    show "\<exists>c. [c' \<leftarrow> m_constrs (model s). c_name c' \<in> flow_names (i, j) n] = [c] \<and>
                set (constr_vars c) \<subseteq> {X (i, j, u, v) | u v. (u, v) \<in> set (G_edges g)} \<and>
                (\<forall>val. satisfies val c =
                   ((if n = i then outflow_val val g (i, j) n - inflow_val val g (i, j) n
                     else inflow_val val g (i, j) n - outflow_val val g (i, j) n) =
                    (if n = i \<or> n = j then 1 else 0))) \<and>
                (if touched g n
                 then c_sense c = EQ \<and>
                      (\<forall>val. expr_val val (c_lhs c) =
                         (if n = i then outflow_val val g (i, j) n - inflow_val val g (i, j) n
                          else inflow_val val g (i, j) n - outflow_val val g (i, j) n)) \<and>
                      c_rhs c = Num (if n = i \<or> n = j then 1 else 0)
                 else c_lhs c = Num 0 \<and> c_sense c = LE \<and>
                      c_rhs c = Num (if n = i \<or> n = j then - 1 else 0))"
      using one vs sat row by (intro exI[of _ ?c] conjI)
  qed
  show ?thesis
    using vars dist bounds cons by blast
qed

theorem flow_variables_and_conservation_witness:
  "build_model isolated3 [((0, 1), 1)] ''cost'' =
     Inr (state_of (build_model isolated3 [((0, 1), 1)] ''cost'')) \<and>
   distinct (map fst [((0 :: int, 1 :: int), 1 :: int)]) \<and>
   distinct (G_edges isolated3) \<and> distinct (nodes isolated3) \<and>
   map v_var [vd \<leftarrow> m_vars (model (state_of (build_model isolated3 [((0, 1), 1)] ''cost''))).
                v_var vd \<noteq> Max_utilisation] = [X (0, 1, 0, 1)]"
proof -
  have h: "build_model isolated3 [((0, 1), 1)] ''cost'' =
     Inr (state_of (build_model isolated3 [((0, 1), 1)] ''cost''))"
    by (simp add: run_defs state_of_def isolated3_def)
  have d: "distinct (map fst [((0 :: int, 1 :: int), 1 :: int)])"
      "distinct (G_edges isolated3)" "distinct (nodes isolated3)"
    by (simp_all add: isolated3_def G_edges_def)
  from flow_variables_and_conservation[OF h d] h d show ?thesis
    by (simp add: isolated3_def G_edges_def)
qed

text \<open>
  C1 as stated fails at a node without any arc: the constraint of such a node is not an
  equality over the demand's variables. On the graph with the arc \<open>(0, 1)\<close> and the third
  node 2, the row of the demand \<open>(0, 1)\<close> at node 2 is the inequality \<open>0 <= 0\<close>; on the
  graph with two nodes and no arc, its rows at the origin and at the destination are the
  inequality \<open>0 <= -1\<close>.
\<close>

theorem isolated_node_counterexample:
  "build_model isolated3 [((0, 1), 1)] ''cost'' =
     Inr (state_of (build_model isolated3 [((0, 1), 1)] ''cost'')) \<and>
   [c \<leftarrow> m_constrs (model (state_of (build_model isolated3 [((0, 1), 1)] ''cost''))).
      c_name c \<in> flow_names (0, 1) 2] =
     [\<lparr>c_lhs = Num 0, c_sense = LE, c_rhs = Num 0, c_name = Flow_mid 0 1 2\<rparr>] \<and>
   build_model two_nodes [((0, 1), 1)] ''cost'' =
     Inr (state_of (build_model two_nodes [((0, 1), 1)] ''cost'')) \<and>
   m_constrs (model (state_of (build_model two_nodes [((0, 1), 1)] ''cost''))) =
     [\<lparr>c_lhs = Num 0, c_sense = LE, c_rhs = Num (- 1), c_name = Flow_src 0 1 0\<rparr>,
      \<lparr>c_lhs = Num 0, c_sense = LE, c_rhs = Num (- 1), c_name = Flow_dst 0 1 1\<rparr>]"
  by (simp add: run_defs state_of_def isolated3_def two_nodes_def flow_names_def holds_def)

lemma attr_of_edge:
  assumes "distinct (G_edges g)" "(e, a) \<in> set (edges g)"
  shows "attr_of g e = a"
  using assms by (simp add: attr_of_def G_edges_def)

lemma expr_val_load_expr:
  "expr_val val (load_expr ds (u, v)) = (\<Sum>((i, j), vol)\<leftarrow>ds. of_int vol * val (X (i, j, u, v)))"
  by (simp add: load_expr_def sum_expr_def expr_val_foldl_Add comp_def key_of_def split_def)

lemma vars_of_load_expr:
  "vars_of (load_expr ds e) = map (\<lambda>dd. X (key_of (fst dd) e)) ds"
  by (simp add: load_expr_def sum_expr_def vars_of_foldl_Add comp_def)

lemma flow_constr_not_coupling: "\<not> couples (flow_constr g d n)"
proof -
  have "\<And>w. w \<in> set (vars_of (flow_lhs g d n)) \<Longrightarrow> var_demand w = Some d"
    using vars_of_flow_lhs[of g d n] by (auto simp: var_demand_def key_of_def)
  then show ?thesis
    by (simp add: couples_def flow_constr_facts)
qed

lemma filter_capacity_name:
  assumes "distinct (G_edges g)" "(u, v) \<in> set (G_edges g)"
  shows "[c' \<leftarrow> map (cap_constr g ds) (G_edges g). c_name c' = Capacity_of u v] = [cap_constr g ds (u, v)]"
proof -
  have "[c' \<leftarrow> map (cap_constr g ds) (G_edges g). c_name c' = Capacity_of u v] =
        map (cap_constr g ds) (filter (\<lambda>e. e = (u, v)) (G_edges g))"
    by (simp add: filter_map comp_def cap_constr_facts prod_eq_iff)
  then show ?thesis
    using filter_unique[OF assms] by simp
qed

text \<open>
  C2, as the code has it. In the built model every arc \<open>(u, v)\<close> has exactly one constraint
  named \<open>capacity_{u}_{v}\<close>, an inequality \<open><=\<close> that a valuation satisfies exactly when the
  sum over all demands of volume times \<open>x[i, j, u, v]\<close> is at most the arc's capacity. With
  at least one demand the stored row has that sum on the left and the capacity on the
  right; with no demand the sum is the number 0, the comparison is a Python \<open>bool\<close>, and
  the stored row is \<open>0 <= 0\<close> (or \<open>0 <= -1\<close> for a negative capacity). A constraint that
  holds variables of two different demands is one of these or, under the objective
  \<open>max_utlilization\<close>, one of the constraints \<open>utilisation_{u}_{v}\<close> that this objective
  adds.
\<close>

theorem capacity_constraints_and_coupling:
  assumes "build_model g ds objective = Inr s" "distinct (G_edges g)"
  shows "(\<forall>((u, v), a) \<in> set (edges g).
            \<exists>c. [c' \<leftarrow> m_constrs (model s). c_name c' = Capacity_of u v] = [c] \<and>
                c_sense c = LE \<and>
                (\<forall>val. satisfies val c =
                   ((\<Sum>((i, j), vol)\<leftarrow>ds. of_int vol * val (X (i, j, u, v))) \<le> capacity a)) \<and>
                (if ds \<noteq> []
                 then c_rhs c = Num (capacity a) \<and>
                      (\<forall>val. expr_val val (c_lhs c) =
                         (\<Sum>((i, j), vol)\<leftarrow>ds. of_int vol * val (X (i, j, u, v))))
                 else c_lhs c = Num 0 \<and> c_rhs c = Num (if 0 \<le> capacity a then 0 else - 1))) \<and>
         (\<forall>c \<in> set (m_constrs (model s)). couples c \<longrightarrow>
            (\<exists>u v. c_name c = Capacity_of u v) \<or>
            (objective = ''max_utlilization'' \<and> (\<exists>u v. c_name c = Utilisation_of u v)))"
proof -
  note m = built_model[OF assms(1)]
  have cap: "\<forall>((u, v), a) \<in> set (edges g).
            \<exists>c. [c' \<leftarrow> m_constrs (model s). c_name c' = Capacity_of u v] = [c] \<and>
                c_sense c = LE \<and>
                (\<forall>val. satisfies val c =
                   ((\<Sum>((i, j), vol)\<leftarrow>ds. of_int vol * val (X (i, j, u, v))) \<le> capacity a)) \<and>
                (if ds \<noteq> []
                 then c_rhs c = Num (capacity a) \<and>
                      (\<forall>val. expr_val val (c_lhs c) =
                         (\<Sum>((i, j), vol)\<leftarrow>ds. of_int vol * val (X (i, j, u, v))))
                 else c_lhs c = Num 0 \<and> c_rhs c = Num (if 0 \<le> capacity a then 0 else - 1))"
  proof (intro ballI, clarify)
    fix u v a
    assume e: "((u, v), a) \<in> set (edges g)"
    then have mem: "(u, v) \<in> set (G_edges g)"
      by (force simp: G_edges_def)
    have a: "attr_of g (u, v) = a"
      by (rule attr_of_edge[OF assms(2) e])
    let ?c = "cap_constr g ds (u, v)"
    have o1: "[c' \<leftarrow> flow_constrs g ds. c_name c' = Capacity_of u v] = []"
      by (auto simp: filter_empty_conv flow_constrs_def flow_constr_facts flow_name_def)
    have o2: "[c' \<leftarrow> map (util_constr g ds) (G_edges g). c_name c' = Capacity_of u v] = []"
      by (auto simp: filter_empty_conv util_constr_def)
    have one: "[c' \<leftarrow> m_constrs (model s). c_name c' = Capacity_of u v] = [?c]"
      unfolding m(2)
      using filter_capacity_name[OF assms(2) mem] o1 o2 by simp
    have sat: "\<forall>val. satisfies val ?c =
                   ((\<Sum>((i, j), vol)\<leftarrow>ds. of_int vol * val (X (i, j, u, v))) \<le> capacity a)"
      by (simp add: cap_constr_facts expr_val_load_expr a)
    have row: "if ds \<noteq> []
                 then c_rhs ?c = Num (capacity a) \<and>
                      (\<forall>val. expr_val val (c_lhs ?c) =
                         (\<Sum>((i, j), vol)\<leftarrow>ds. of_int vol * val (X (i, j, u, v))))
                 else c_lhs ?c = Num 0 \<and> c_rhs ?c = Num (if 0 \<le> capacity a then 0 else - 1)"
    proof (cases "ds = []")
      case True
      then show ?thesis
        by (simp add: cap_constr_no_demand a)
    next
      case False
      then show ?thesis
        by (simp add: cap_constr_demands expr_val_load_expr a)
    qed
    show "\<exists>c. [c' \<leftarrow> m_constrs (model s). c_name c' = Capacity_of u v] = [c] \<and>
                c_sense c = LE \<and>
                (\<forall>val. satisfies val c =
                   ((\<Sum>((i, j), vol)\<leftarrow>ds. of_int vol * val (X (i, j, u, v))) \<le> capacity a)) \<and>
                (if ds \<noteq> []
                 then c_rhs c = Num (capacity a) \<and>
                      (\<forall>val. expr_val val (c_lhs c) =
                         (\<Sum>((i, j), vol)\<leftarrow>ds. of_int vol * val (X (i, j, u, v))))
                 else c_lhs c = Num 0 \<and> c_rhs c = Num (if 0 \<le> capacity a then 0 else - 1))"
      using one sat row cap_constr_facts(2)[of g ds "(u, v)"]
      by (intro exI[of _ ?c] conjI)
  qed
  have coup: "\<forall>c \<in> set (m_constrs (model s)). couples c \<longrightarrow>
            (\<exists>u v. c_name c = Capacity_of u v) \<or>
            (objective = ''max_utlilization'' \<and> (\<exists>u v. c_name c = Utilisation_of u v))"
    unfolding m(2)
    by (auto simp: flow_constrs_def flow_constr_not_coupling cap_constr_facts util_constr_def)
  show ?thesis
    using cap coup by blast
qed

theorem capacity_constraints_and_coupling_witness:
  "build_model one_arc [((0, 1), 1), ((1, 0), 1)] ''cost'' =
     Inr (state_of (build_model one_arc [((0, 1), 1), ((1, 0), 1)] ''cost'')) \<and>
   distinct (G_edges one_arc) \<and>
   map c_name [c \<leftarrow> m_constrs (model (state_of (build_model one_arc [((0, 1), 1), ((1, 0), 1)] ''cost''))).
                 couples c] = [Capacity_of 0 1]"
proof -
  have h: "build_model one_arc [((0, 1), 1), ((1, 0), 1)] ''cost'' =
     Inr (state_of (build_model one_arc [((0, 1), 1), ((1, 0), 1)] ''cost''))"
    by (simp add: run_defs state_of_def one_arc_def)
  have d: "distinct (G_edges one_arc)"
    by (simp add: one_arc_def G_edges_def)
  have "map c_name [c \<leftarrow> m_constrs (model (state_of (build_model one_arc [((0, 1), 1), ((1, 0), 1)] ''cost''))).
                 couples c] = [Capacity_of 0 1]"
    by (simp add: run_defs state_of_def one_arc_def couples_def constr_vars_def var_demand_def)
  with capacity_constraints_and_coupling[OF h d] h d show ?thesis
    by simp
qed

text \<open>
  C2 as stated fails: under \<open>max_utlilization\<close> the capacity constraints are not the only
  ones that couple demands. With one arc and two demands, the constraints of the built
  model that hold variables of both demands are \<open>capacity_0_1\<close> and \<open>utilisation_0_1\<close>.
  And with no demand the capacity row of the arc, of capacity 2, is \<open>0 <= 0\<close>.
\<close>

theorem coupling_counterexample:
  "build_model one_arc [((0, 1), 1), ((1, 0), 1)] ''max_utlilization'' =
     Inr (state_of (build_model one_arc [((0, 1), 1), ((1, 0), 1)] ''max_utlilization'')) \<and>
   map c_name [c \<leftarrow> m_constrs (model (state_of
                   (build_model one_arc [((0, 1), 1), ((1, 0), 1)] ''max_utlilization''))).
                 couples c] = [Capacity_of 0 1, Utilisation_of 0 1] \<and>
   build_model one_arc [] ''cost'' = Inr (state_of (build_model one_arc [] ''cost'')) \<and>
   m_constrs (model (state_of (build_model one_arc [] ''cost''))) =
     [\<lparr>c_lhs = Num 0, c_sense = LE, c_rhs = Num 0, c_name = Capacity_of 0 1\<rparr>]"
  by (simp add: run_defs state_of_def one_arc_def couples_def constr_vars_def var_demand_def
        holds_def)

lemma filter_utilisation_name:
  assumes "distinct (G_edges g)" "(u, v) \<in> set (G_edges g)"
  shows "[c' \<leftarrow> map (util_constr g ds) (G_edges g). c_name c' = Utilisation_of u v] =
           [util_constr g ds (u, v)]"
proof -
  have "[c' \<leftarrow> map (util_constr g ds) (G_edges g). c_name c' = Utilisation_of u v] =
        map (util_constr g ds) (filter (\<lambda>e. e = (u, v)) (G_edges g))"
    by (simp add: filter_map comp_def util_constr_def prod_eq_iff)
  then show ?thesis
    using filter_unique[OF assms] by simp
qed

text \<open>
  C4, as the code has it. The selector of the maximum-utilisation objective is the string
  \<open>max_utlilization\<close>. When the model is built under it, the model has one auxiliary
  variable \<open>max_utilisation\<close> with lower bound 0 (and upper bound \<open>GRB.INFINITY\<close>), for every
  arc \<open>(u, v)\<close> exactly one constraint \<open>utilisation_{u}_{v}\<close> saying that this variable is at
  least the sum over the demands of volume times \<open>x[i, j, u, v]\<close>, divided by the arc's
  capacity (which is not zero), and the objective is to minimise the variable.
\<close>

theorem max_utilisation_objective:
  assumes "build_model g ds ''max_utlilization'' = Inr s" "distinct (G_edges g)"
  shows "[vd \<leftarrow> m_vars (model s). v_var vd = Max_utilisation] =
           [\<lparr>v_var = Max_utilisation, v_lb = 0, v_ub = GRB_INFINITY\<rparr>] \<and>
         (\<forall>((u, v), a) \<in> set (edges g).
            capacity a \<noteq> 0 \<and>
            (\<exists>c. [c' \<leftarrow> m_constrs (model s). c_name c' = Utilisation_of u v] = [c] \<and>
                 c_lhs c = V Max_utilisation \<and> c_sense c = GE \<and>
                 (\<forall>val. expr_val val (c_rhs c) =
                    (\<Sum>((i, j), vol)\<leftarrow>ds. of_int vol * val (X (i, j, u, v))) / capacity a))) \<and>
         m_objective (model s) = Some (V Max_utilisation, MINIMIZE)"
proof -
  note m = built_model[OF assms(1)]
  have "[vd \<leftarrow> flow_var_decls ds (G_edges g). v_var vd = Max_utilisation] = []"
    by (auto simp: filter_empty_conv flow_var_decls_def flow_var_decl_def)
  then have aux: "[vd \<leftarrow> m_vars (model s). v_var vd = Max_utilisation] =
           [\<lparr>v_var = Max_utilisation, v_lb = 0, v_ub = GRB_INFINITY\<rparr>]"
    unfolding m(1) by simp
  have util: "\<forall>((u, v), a) \<in> set (edges g).
            capacity a \<noteq> 0 \<and>
            (\<exists>c. [c' \<leftarrow> m_constrs (model s). c_name c' = Utilisation_of u v] = [c] \<and>
                 c_lhs c = V Max_utilisation \<and> c_sense c = GE \<and>
                 (\<forall>val. expr_val val (c_rhs c) =
                    (\<Sum>((i, j), vol)\<leftarrow>ds. of_int vol * val (X (i, j, u, v))) / capacity a))"
  proof (intro ballI, clarify)
    fix u v a
    assume e: "((u, v), a) \<in> set (edges g)"
    then have mem: "(u, v) \<in> set (G_edges g)"
      by (force simp: G_edges_def)
    have a: "attr_of g (u, v) = a"
      by (rule attr_of_edge[OF assms(2) e])
    have nz: "capacity a \<noteq> 0"
      using m(4) mem a by (auto simp: build_ok_def objective_ok_def caps_nonzero_def)
    let ?c = "util_constr g ds (u, v)"
    have o1: "[c' \<leftarrow> flow_constrs g ds. c_name c' = Utilisation_of u v] = []"
      by (auto simp: filter_empty_conv flow_constrs_def flow_constr_facts flow_name_def)
    have o2: "[c' \<leftarrow> map (cap_constr g ds) (G_edges g). c_name c' = Utilisation_of u v] = []"
      by (auto simp: filter_empty_conv cap_constr_facts)
    have one: "[c' \<leftarrow> m_constrs (model s). c_name c' = Utilisation_of u v] = [?c]"
      unfolding m(2)
      using filter_utilisation_name[OF assms(2) mem] o1 o2 by simp
    have "\<exists>c. [c' \<leftarrow> m_constrs (model s). c_name c' = Utilisation_of u v] = [c] \<and>
                 c_lhs c = V Max_utilisation \<and> c_sense c = GE \<and>
                 (\<forall>val. expr_val val (c_rhs c) =
                    (\<Sum>((i, j), vol)\<leftarrow>ds. of_int vol * val (X (i, j, u, v))) / capacity a)"
      using one a
      by (intro exI[of _ ?c]) (simp add: util_constr_def expr_val_load_expr)
    with nz show "capacity a \<noteq> 0 \<and>
            (\<exists>c. [c' \<leftarrow> m_constrs (model s). c_name c' = Utilisation_of u v] = [c] \<and>
                 c_lhs c = V Max_utilisation \<and> c_sense c = GE \<and>
                 (\<forall>val. expr_val val (c_rhs c) =
                    (\<Sum>((i, j), vol)\<leftarrow>ds. of_int vol * val (X (i, j, u, v))) / capacity a))"
      by simp
  qed
  show ?thesis
    using aux util m(3) by simp
qed

theorem max_utilisation_objective_witness:
  "build_model isolated3 [] ''max_utlilization'' =
     Inr (state_of (build_model isolated3 [] ''max_utlilization'')) \<and>
   distinct (G_edges isolated3) \<and>
   m_objective (model (state_of (build_model isolated3 [] ''max_utlilization''))) =
     Some (V Max_utilisation, MINIMIZE) \<and>
   [vd \<leftarrow> m_vars (model (state_of (build_model isolated3 [] ''max_utlilization''))).
      v_var vd = Max_utilisation] = [\<lparr>v_var = Max_utilisation, v_lb = 0, v_ub = GRB_INFINITY\<rparr>]"
proof -
  have h: "build_model isolated3 [] ''max_utlilization'' =
     Inr (state_of (build_model isolated3 [] ''max_utlilization''))"
    by (simp add: run_defs state_of_def final_state_def outcome_of_def stub_solver_def isolated3_def holds_def)
  have d: "distinct (G_edges isolated3)"
    by (simp add: isolated3_def G_edges_def)
  from max_utilisation_objective[OF h d] h d show ?thesis
    by simp
qed

text \<open>
  C4 as stated fails: the selector \<open>max_utilization\<close> is not one the code recognises. The
  call raises \<open>ValueError\<close>; no auxiliary variable is added and no objective is set.
\<close>

theorem selector_spelling_counterexample:
  "outcome_of (solve_linear_program (stub_solver OPTIMAL 0) one_arc [((0, 1), 1), ((1, 0), 1)]
      ''max_utilization'') = Inl ValueError \<and>
   [vd \<leftarrow> m_vars (model (state_of (build_model one_arc [((0, 1), 1), ((1, 0), 1)] ''max_utilization''))).
      v_var vd = Max_utilisation] = [] \<and>
   m_objective (model (state_of (build_model one_arc [((0, 1), 1), ((1, 0), 1)] ''max_utilization''))) =
     None"
  by (simp add: run_defs state_of_def final_state_def outcome_of_def stub_solver_def one_arc_def holds_def)

section \<open>Inputs the code does not check first\<close>

lemma build_model_failure:
  assumes "build_model g ds objective = Inl (e, t)"
  shows "solve_linear_program solver g ds objective = Inl (e, t)" and "trace t = []"
    and "graph t = g" and "traffic_demand t = ds"
  using assms build_model_kept[of g ds objective]
  by (simp_all add: solve_linear_program_def and_then_def state_of_def kept_def entry_state_def)

lemma flow_constr_names:
  "map c_name (flow_constrs g ds) = [flow_name (i, j) n. ((i, j), vol) \<leftarrow> ds, n \<leftarrow> nodes g]"
  by (induction ds) (auto simp: flow_constrs_def flow_constr_facts comp_def split_def)

lemma cap_constr_names:
  "map c_name (map (cap_constr g ds) es) = [Capacity_of u v. (u, v) \<leftarrow> es]"
  by (induction es) (auto simp: cap_constr_facts)

lemma vols_fit_volumes: "vols_fit ds = list_all fits_double (map snd ds)"
  by (auto simp: vols_fit_def list_all_iff)

text \<open>
  C5, as the code has it. With a selector that is none of the three strings the code
  compares with, the call raises, returns no model and never runs the solver. The
  selector is tested last: the exception is \<open>ValueError\<close>, raised in the state that the
  statements creating the variables and the conservation and capacity constraints have
  left, with every flow variable and every such constraint created. The one exception:
  when the graph has an arc and some volume does not convert to a double, the first
  capacity constraint raises \<open>TypeError\<close>, after every flow variable and every conservation
  constraint has been created.
\<close>

theorem unrecognised_objective:
  assumes "objective \<noteq> ''cost''" "objective \<noteq> ''max_utlilization''"
          "objective \<noteq> ''avg_utilisation''"
  shows "\<exists>t. build_model g ds objective =
               Inl (if G_edges g = [] \<or> vols_fit ds then ValueError else TypeError, t) \<and>
             solve_linear_program solver g ds objective =
               Inl (if G_edges g = [] \<or> vols_fit ds then ValueError else TypeError, t) \<and>
             build_constraints g ds =
               (if G_edges g = [] \<or> vols_fit ds then Inr t else Inl (TypeError, t)) \<and>
             trace t = [] \<and>
             map v_var (m_vars (model t)) =
               [X (i, j, u, v). ((i, j), vol) \<leftarrow> ds, (u, v) \<leftarrow> G_edges g] \<and>
             map c_name (m_constrs (model t)) =
               [flow_name (i, j) n. ((i, j), vol) \<leftarrow> ds, n \<leftarrow> nodes g] @
               (if G_edges g = [] \<or> vols_fit ds then [Capacity_of u v. (u, v) \<leftarrow> G_edges g]
                else [])"
proof (cases "steps_ok g ds")
  case True
  then have c: "G_edges g = [] \<or> vols_fit ds"
    by (auto simp: steps_ok_def)
  let ?t = "base_state g ds"
  have b: "build_model g ds objective = Inl (ValueError, ?t)"
    by (rule build_model_unrecognised[OF assms True])
  have st: "build_constraints g ds = Inr ?t"
    using steps_iff[of g ds ?t] True by simp
  have vars: "map v_var (m_vars (model ?t)) =
                [X (i, j, u, v). ((i, j), vol) \<leftarrow> ds, (u, v) \<leftarrow> G_edges g]"
    by (simp add: base_state_def flow_var_decls_keys flow_keys_comprehension)
  have names: "map c_name (m_constrs (model ?t)) =
                [flow_name (i, j) n. ((i, j), vol) \<leftarrow> ds, n \<leftarrow> nodes g] @
                [Capacity_of u v. (u, v) \<leftarrow> G_edges g]"
    using flow_constr_names[of g ds] cap_constr_names[of g ds "G_edges g"]
    by (simp add: base_state_def)
  show ?thesis
    using b build_model_failure(1,2)[OF b] st vars names c
    by (intro exI[of _ ?t]) simp
next
  case False
  then have c: "\<not> (G_edges g = [] \<or> vols_fit ds)"
    by (auto simp: steps_ok_def)
  let ?t = "(base_state g ds)\<lparr>model := (model (base_state g ds))\<lparr>m_constrs := flow_constrs g ds\<rparr>\<rparr>"
  have st: "build_constraints g ds = Inl (TypeError, ?t)"
    by (rule steps_fail[OF False])
  then have b: "build_model g ds objective = Inl (TypeError, ?t)"
    by (simp add: build_model_def and_then_def)
  have vars: "map v_var (m_vars (model ?t)) =
                [X (i, j, u, v). ((i, j), vol) \<leftarrow> ds, (u, v) \<leftarrow> G_edges g]"
    by (simp add: base_state_def flow_var_decls_keys flow_keys_comprehension)
  have names: "map c_name (m_constrs (model ?t)) =
                [flow_name (i, j) n. ((i, j), vol) \<leftarrow> ds, n \<leftarrow> nodes g]"
    using flow_constr_names[of g ds] by simp
  show ?thesis
    using b build_model_failure(1,2)[OF b] st vars names c
    by (intro exI[of _ ?t]) simp
qed

theorem unrecognised_objective_witness:
  "''foo'' \<noteq> ''cost'' \<and> ''foo'' \<noteq> ''max_utlilization'' \<and> ''foo'' \<noteq> ''avg_utilisation'' \<and>
   outcome_of (solve_linear_program (stub_solver OPTIMAL 0) cycle3 [] ''foo'') = Inl ValueError \<and>
   map c_name (m_constrs (model (state_of (build_model cycle3 [] ''foo'')))) =
     [Capacity_of 0 1, Capacity_of 1 2, Capacity_of 2 0]"
proof -
  have n: "''foo'' \<noteq> ''cost''" "''foo'' \<noteq> ''max_utlilization''" "''foo'' \<noteq> ''avg_utilisation''"
    by simp_all
  have f: "G_edges cycle3 = [] \<or> vols_fit []"
    by (simp add: vols_fit_def)
  from unrecognised_objective[OF n, of cycle3 "[]" "stub_solver OPTIMAL 0"] f n show ?thesis
    by (auto simp: outcome_of_def state_of_def cycle3_def G_edges_def)
qed

text \<open>
  C5 as stated fails: the failure does not come before the variables and constraints.
  On the three-node cycle with one demand, the model in which \<open>ValueError\<close> is raised
  already has three variables and six constraints.
\<close>

theorem late_objective_check_counterexample:
  "outcome_of (solve_linear_program (stub_solver OPTIMAL 0) cycle3 [((0, 2), 3)] ''foo'') =
     Inl ValueError \<and>
   map v_var (m_vars (model (state_of (build_model cycle3 [((0, 2), 3)] ''foo'')))) =
     [X (0, 2, 0, 1), X (0, 2, 1, 2), X (0, 2, 2, 0)] \<and>
   map c_name (m_constrs (model (state_of (build_model cycle3 [((0, 2), 3)] ''foo'')))) =
     [Flow_src 0 2 0, Flow_mid 0 2 1, Flow_dst 0 2 2,
      Capacity_of 0 1, Capacity_of 1 2, Capacity_of 2 0]"
  by (simp add: run_defs state_of_def final_state_def outcome_of_def stub_solver_def cycle3_def)

text \<open>
  C6, as the code has it. The end nodes of the demands are never checked, and whether the
  build succeeds does not depend on them: when a demand names a node the graph does not
  have, and the build succeeds on this graph and objective for a demand mapping with the
  same volumes in the same order (whatever its end nodes), it succeeds for this one as
  well, and the solver is run. The model then has no origin constraint for a demand whose
  origin is missing, and no destination constraint for one whose destination is missing.
\<close>

theorem demand_endpoints_not_checked:
  assumes "((i, j), vol) \<in> set ds" "i \<notin> set (nodes g) \<or> j \<notin> set (nodes g)"
      and "build_model g ds' objective = Inr s'" "map snd ds' = map snd ds"
  shows "\<exists>s. build_model g ds objective = Inr s \<and>
             trace (final_state (solve_linear_program solver g ds objective)) \<noteq> [] \<and>
             hd (trace (final_state (solve_linear_program solver g ds objective))) = Optimize \<and>
             (i \<notin> set (nodes g) \<longrightarrow>
                (\<forall>c \<in> set (m_constrs (model s)). \<forall>n. c_name c \<noteq> Flow_src i j n)) \<and>
             (j \<notin> set (nodes g) \<longrightarrow>
                (\<forall>c \<in> set (m_constrs (model s)). \<forall>n. c_name c \<noteq> Flow_dst i j n))"
proof -
  have "build_ok g ds' objective"
    by (rule built_model(4)[OF assms(3)])
  then have "build_ok g ds objective"
    using assms(4) by (simp add: build_ok_def steps_ok_def vols_fit_volumes)
  then obtain s where s: "build_model g ds objective = Inr s"
    using build_model_iff[of g ds objective] by simp
  have "trace s = []"
    by (rule built_x_dict(2)[OF s])
  then have run: "trace (final_state (solve_linear_program solver g ds objective)) \<noteq> [] \<and>
             hd (trace (final_state (solve_linear_program solver g ds objective))) = Optimize"
    using s
    by (simp add: solve_linear_program_def and_then_def read_outcome_def final_state_def)
  have names: "\<And>c. c \<in> set (m_constrs (model s)) \<Longrightarrow>
        (\<exists>d n. n \<in> set (nodes g) \<and> c_name c = flow_name d n) \<or>
        (\<exists>u v. c_name c = Capacity_of u v) \<or> (\<exists>u v. c_name c = Utilisation_of u v)"
  proof -
    fix c
    assume "c \<in> set (m_constrs (model s))"
    then consider (flow) "c \<in> set (flow_constrs g ds)"
      | (cap) "c \<in> set (map (cap_constr g ds) (G_edges g))"
      | (util) "c \<in> set (map (util_constr g ds) (G_edges g))"
      unfolding built_model(2)[OF s] by (auto split: if_splits)
    then show "(\<exists>d n. n \<in> set (nodes g) \<and> c_name c = flow_name d n) \<or>
        (\<exists>u v. c_name c = Capacity_of u v) \<or> (\<exists>u v. c_name c = Utilisation_of u v)"
    proof cases
      case flow
      then obtain dd n where n: "n \<in> set (nodes g)" and c: "c = flow_constr g (fst dd) n"
        by (auto simp: flow_constrs_def)
      have "c_name c = flow_name (fst dd) n"
        unfolding c by (simp add: flow_constr_facts)
      with n show ?thesis by blast
    next
      case cap
      then have "\<exists>u v. c_name c = Capacity_of u v"
        by (auto simp: cap_constr_facts)
      then show ?thesis by blast
    next
      case util
      then have "\<exists>u v. c_name c = Utilisation_of u v"
        by (auto simp: util_constr_def)
      then show ?thesis by blast
    qed
  qed
  have src: "i \<notin> set (nodes g) \<longrightarrow>
                (\<forall>c \<in> set (m_constrs (model s)). \<forall>n. c_name c \<noteq> Flow_src i j n)"
    using names by (fastforce simp: flow_name_def split: if_splits)
  have dst: "j \<notin> set (nodes g) \<longrightarrow>
                (\<forall>c \<in> set (m_constrs (model s)). \<forall>n. c_name c \<noteq> Flow_dst i j n)"
    using names by (fastforce simp: flow_name_def split: if_splits)
  show ?thesis
    using s run src dst by blast
qed

theorem demand_endpoints_not_checked_witness:
  "((7, 8), 1) \<in> set [((7 :: int, 8 :: int), 1 :: int)] \<and>
   7 \<notin> set (nodes isolated3) \<and>
   build_model isolated3 [((0, 1), 1)] ''cost'' =
     Inr (state_of (build_model isolated3 [((0, 1), 1)] ''cost'')) \<and>
   map snd [((0 :: int, 1 :: int), 1 :: int)] = map snd [((7 :: int, 8 :: int), 1 :: int)] \<and>
   (\<exists>s. build_model isolated3 [((7, 8), 1)] ''cost'' = Inr s) \<and>
   hd (trace (final_state (solve_linear_program (stub_solver OPTIMAL 0) isolated3 [((7, 8), 1)] ''cost''))) =
     Optimize"
proof -
  have a: "((7, 8), 1) \<in> set [((7 :: int, 8 :: int), 1 :: int)]"
      "7 \<notin> set (nodes isolated3) \<or> 8 \<notin> set (nodes isolated3)"
    by (simp_all add: isolated3_def)
  have h: "build_model isolated3 [((0, 1), 1)] ''cost'' =
     Inr (state_of (build_model isolated3 [((0, 1), 1)] ''cost''))"
    by (simp add: run_defs state_of_def isolated3_def)
  have n: "map snd [((0 :: int, 1 :: int), 1 :: int)] = map snd [((7 :: int, 8 :: int), 1 :: int)]"
    by simp
  have m: "7 \<notin> set (nodes isolated3)"
    by (simp add: isolated3_def)
  from demand_endpoints_not_checked[OF a h n, of "stub_solver OPTIMAL 0"] a(1) m h n show ?thesis
    by blast
qed

text \<open>
  C6 as stated fails: for the demand \<open>(7, 8)\<close> on the three-node cycle the model is built
  (the demand gets the constraint for an intermediate node at each of the three nodes)
  and the solver is run.
\<close>

theorem missing_node_counterexample:
  "build_model cycle3 [((7, 8), 1)] ''cost'' =
     Inr (state_of (build_model cycle3 [((7, 8), 1)] ''cost'')) \<and>
   map c_name (m_constrs (model (state_of (build_model cycle3 [((7, 8), 1)] ''cost'')))) =
     [Flow_mid 7 8 0, Flow_mid 7 8 1, Flow_mid 7 8 2,
      Capacity_of 0 1, Capacity_of 1 2, Capacity_of 2 0] \<and>
   trace (final_state (solve_linear_program (stub_solver OPTIMAL 0) cycle3 [((7, 8), 1)] ''cost'')) =
     [Optimize]"
  by (simp add: run_defs state_of_def final_state_def outcome_of_def stub_solver_def cycle3_def)

section \<open>The conservation constraints of one demand, summed\<close>

lemma sum_list_delta:
  "distinct ns \<Longrightarrow> (\<Sum>n\<leftarrow>ns. if n = a then (c :: real) else 0) = (if a \<in> set ns then c else 0)"
  by (induction ns) auto

lemma sum_over_heads:
  assumes "distinct ns" "\<forall>e \<in> set es. h e \<in> set ns"
  shows "(\<Sum>n\<leftarrow>ns. \<Sum>e\<leftarrow>filter (\<lambda>e. h e = n) es. (f e :: real)) = (\<Sum>e\<leftarrow>es. f e)"
  using assms(2)
proof (induction es)
  case Nil
  show ?case by simp
next
  case (Cons e es)
  have "(\<Sum>n\<leftarrow>ns. \<Sum>e'\<leftarrow>filter (\<lambda>e'. h e' = n) (e # es). f e') =
        (\<Sum>n\<leftarrow>ns. (if n = h e then f e else 0) + (\<Sum>e'\<leftarrow>filter (\<lambda>e'. h e' = n) es. f e'))"
    by (rule arg_cong[where f = sum_list], rule map_cong) auto
  also have "\<dots> = (\<Sum>n\<leftarrow>ns. if n = h e then f e else 0) +
                  (\<Sum>n\<leftarrow>ns. \<Sum>e'\<leftarrow>filter (\<lambda>e'. h e' = n) es. f e')"
    by (simp add: sum_list_addf)
  also have "\<dots> = f e + (\<Sum>e'\<leftarrow>es. f e')"
    using Cons sum_list_delta[OF assms(1), of "h e" "f e"] by simp
  finally show ?case by simp
qed

lemma inflow_total:
  assumes "distinct (nodes g)" "\<forall>(u, v) \<in> set (G_edges g). u \<in> set (nodes g) \<and> v \<in> set (nodes g)"
  shows "(\<Sum>n\<leftarrow>nodes g. inflow_val val g d n) = (\<Sum>(u, v)\<leftarrow>G_edges g. val (X (fst d, snd d, u, v)))"
proof -
  have a: "\<forall>e \<in> set (G_edges g). snd e \<in> set (nodes g)"
    using assms(2) by auto
  show ?thesis
    unfolding inflow_val_in_edges in_edges_def split_def
    by (rule sum_over_heads[OF assms(1) a])
qed

lemma outflow_total:
  assumes "distinct (nodes g)" "\<forall>(u, v) \<in> set (G_edges g). u \<in> set (nodes g) \<and> v \<in> set (nodes g)"
  shows "(\<Sum>n\<leftarrow>nodes g. outflow_val val g d n) = (\<Sum>(u, v)\<leftarrow>G_edges g. val (X (fst d, snd d, u, v)))"
proof -
  have a: "\<forall>e \<in> set (G_edges g). fst e \<in> set (nodes g)"
    using assms(2) by auto
  show ?thesis
    unfolding outflow_val_out_edges out_edges_def split_def
    by (rule sum_over_heads[OF assms(1) a])
qed

lemma flow_constr_lhs_val:
  "expr_val val (c_lhs (flow_constr g d n)) =
     (inflow_val val g d n - outflow_val val g d n) +
     (if n = fst d then 2 * (outflow_val val g d n - inflow_val val g d n) else 0)"
proof -
  have "expr_val val (c_lhs (flow_constr g d n)) = expr_val val (flow_lhs g d n)"
  proof (cases "touched g n")
    case True
    then show ?thesis by (simp add: flow_constr_touched)
  next
    case False
    then show ?thesis
      by (auto simp: flow_constr_untouched flow_lhs_def flow_sum_def sum_expr_def touched_iff)
  qed
  then show ?thesis
    by (simp add: flow_lhs_def expr_val_flow_sum flow_sum_vals inflow_val_in_edges outflow_val_out_edges)
qed

lemma filter_flow_demand:
  assumes "distinct (map fst ds)" "dd \<in> set ds"
  shows "[c \<leftarrow> flow_constrs g ds. flow_demand (c_name c) = Some (fst dd)] =
         map (flow_constr g (fst dd)) (nodes g)"
proof -
  have nm: "\<And>d' n. (flow_demand (c_name (flow_constr g d' n)) = Some (fst dd)) = (d' = fst dd)"
    by (auto simp: flow_constr_facts flow_name_def flow_demand_def prod_eq_iff)
  have inner: "\<And>d'. [c \<leftarrow> map (flow_constr g d') (nodes g). flow_demand (c_name c) = Some (fst dd)] =
        (if d' = fst dd then map (flow_constr g (fst dd)) (nodes g) else [])"
    by (simp add: filter_map comp_def nm)
  have "[c \<leftarrow> flow_constrs g ds. flow_demand (c_name c) = Some (fst dd)] =
        concat (map (\<lambda>y. if fst y = fst dd then map (flow_constr g (fst dd)) (nodes g) else []) ds)"
    by (simp add: flow_constrs_def filter_concat comp_def inner)
  also have "\<dots> = map (flow_constr g (fst dd)) (nodes g)"
    by (rule concat_map_unique[OF assms])
  finally show ?thesis .
qed

text \<open>
  C7, as the code has it. For a graph whose arcs join nodes of the graph and a demand
  \<open>(i, j)\<close>, the left-hand sides of that demand's conservation constraints in the built
  model sum, under every valuation of the variables, to twice the net outflow at the
  origin, \<open>2 * (outflow(i) - inflow(i))\<close>, and to zero when the origin is no node of the
  graph. The origin's constraint is written outflow minus inflow and every other one
  inflow minus outflow, so the terms of the arcs at the origin do not cancel.
\<close>

theorem conservation_lhs_sum:
  assumes "build_model g ds objective = Inr s"
      and "distinct (map fst ds)" "distinct (nodes g)"
      and "\<forall>(u, v) \<in> set (G_edges g). u \<in> set (nodes g) \<and> v \<in> set (nodes g)"
      and "((i, j), vol) \<in> set ds"
  shows "flow_lhs_sum (model s) (i, j) val =
           (if i \<in> set (nodes g)
            then 2 * (outflow_val val g (i, j) i - inflow_val val g (i, j) i) else 0)"
proof -
  note m = built_model[OF assms(1)]
  have o1: "[c \<leftarrow> map (cap_constr g ds) (G_edges g). flow_demand (c_name c) = Some (i, j)] = []"
    by (auto simp: filter_empty_conv cap_constr_facts flow_demand_def)
  have o2: "[c \<leftarrow> map (util_constr g ds) (G_edges g). flow_demand (c_name c) = Some (i, j)] = []"
    by (auto simp: filter_empty_conv util_constr_def flow_demand_def)
  have sel: "[c \<leftarrow> m_constrs (model s). flow_demand (c_name c) = Some (i, j)] =
             map (flow_constr g (i, j)) (nodes g)"
    unfolding m(2) using filter_flow_demand[OF assms(2,5), of g] o1 o2 by simp
  have "flow_lhs_sum (model s) (i, j) val =
        (\<Sum>n\<leftarrow>nodes g. (inflow_val val g (i, j) n - outflow_val val g (i, j) n) +
           (if n = i then 2 * (outflow_val val g (i, j) i - inflow_val val g (i, j) i) else 0))"
    unfolding flow_lhs_sum_def sel
    by (simp add: comp_def flow_constr_lhs_val cong: if_cong)
  also have "\<dots> = ((\<Sum>n\<leftarrow>nodes g. inflow_val val g (i, j) n) - (\<Sum>n\<leftarrow>nodes g. outflow_val val g (i, j) n)) +
        (\<Sum>n\<leftarrow>nodes g. if n = i then 2 * (outflow_val val g (i, j) i - inflow_val val g (i, j) i) else 0)"
    by (simp add: sum_list_addf sum_list_subtractf)
  also have "\<dots> = (if i \<in> set (nodes g)
            then 2 * (outflow_val val g (i, j) i - inflow_val val g (i, j) i) else 0)"
    using inflow_total[OF assms(3,4)] outflow_total[OF assms(3,4)] sum_list_delta[OF assms(3)]
    by simp
  finally show ?thesis .
qed

theorem conservation_lhs_sum_witness:
  "build_model isolated3 [((0, 1), 1)] ''cost'' =
     Inr (state_of (build_model isolated3 [((0, 1), 1)] ''cost'')) \<and>
   distinct (map fst [((0 :: int, 1 :: int), 1 :: int)]) \<and> distinct (nodes isolated3) \<and>
   list_all (\<lambda>(u, v). u \<in> set (nodes isolated3) \<and> v \<in> set (nodes isolated3)) (G_edges isolated3) \<and>
   ((0, 1), 1) \<in> set [((0 :: int, 1 :: int), 1 :: int)] \<and>
   flow_lhs_sum (model (state_of (build_model isolated3 [((0, 1), 1)] ''cost''))) (0, 1)
     (\<lambda>w. if w = X (0, 1, 0, 1) then 1 else 0) = 2"
proof -
  have h: "build_model isolated3 [((0, 1), 1)] ''cost'' =
     Inr (state_of (build_model isolated3 [((0, 1), 1)] ''cost''))"
    by (simp add: run_defs state_of_def isolated3_def)
  have d: "distinct (map fst [((0 :: int, 1 :: int), 1 :: int)])" "distinct (nodes isolated3)"
    by (simp_all add: isolated3_def)
  have e: "\<forall>(u, v) \<in> set (G_edges isolated3). u \<in> set (nodes isolated3) \<and> v \<in> set (nodes isolated3)"
    by (simp add: isolated3_def G_edges_def)
  have m: "((0, 1), 1) \<in> set [((0 :: int, 1 :: int), 1 :: int)]"
    by simp
  have l: "list_all (\<lambda>(u, v). u \<in> set (nodes isolated3) \<and> v \<in> set (nodes isolated3)) (G_edges isolated3)"
    by (simp add: isolated3_def G_edges_def)
  have "flow_lhs_sum (model (state_of (build_model isolated3 [((0, 1), 1)] ''cost''))) (0, 1)
     (\<lambda>w. if w = X (0, 1, 0, 1) then 1 else 0) = 2"
    using conservation_lhs_sum[OF h d e m, of "\<lambda>w. if w = X (0, 1, 0, 1) then 1 else 0"]
    by (simp add: isolated3_def outflow_val_def inflow_val_def out_edges_def in_edges_def G_edges_def)
  with h d l m show ?thesis
    by simp
qed

text \<open>
  C7 as stated fails: on the three-node cycle with the demand \<open>(0, 2)\<close>, under the valuation
  that gives 1 to the arc \<open>(0, 1)\<close> and 0 to the others, the left-hand sides sum to 2.
\<close>

theorem conservation_sum_counterexample:
  "build_model cycle3 [((0, 2), 3)] ''cost'' =
     Inr (state_of (build_model cycle3 [((0, 2), 3)] ''cost'')) \<and>
   flow_lhs_sum (model (state_of (build_model cycle3 [((0, 2), 3)] ''cost''))) (0, 2)
     (\<lambda>w. if w = X (0, 2, 0, 1) then 1 else 0) = 2"
  by (simp add: run_defs state_of_def final_state_def outcome_of_def stub_solver_def cycle3_def flow_lhs_sum_def flow_demand_def holds_def)

section \<open>Writing an instance and reading it back\<close>

lemma is_digit_digit_char: "k < 10 \<Longrightarrow> is_digit (digit_char k)"
  by (simp add: is_digit_def digit_char_def)

lemma str_nat_head: "str_nat n \<noteq> [] \<and> is_digit (hd (str_nat n))"
proof (induction n rule: str_nat.induct)
  case (1 n)
  show ?case
  proof (cases "n < 10")
    case True
    then show ?thesis
      by (subst str_nat.simps, subst (2) str_nat.simps) (simp add: is_digit_digit_char)
  next
    case False
    then show ?thesis
      using 1 by (subst str_nat.simps, subst (2) str_nat.simps) simp
  qed
qed

lemma numeric_head_str_int: "numeric_head (str_int u)"
  using str_nat_head by (simp add: numeric_head_def str_int_def)

lemma numeric_head_not_header:
  "numeric_head s \<Longrightarrow> s \<noteq> ''Source'' \<and> s \<noteq> ''entry'' \<and> s \<noteq> ''Subset S''"
  by (auto simp: numeric_head_def is_digit_def)

lemma py_nat_error: "py_nat s = Inl e \<Longrightarrow> e = ValueError"
  by (auto simp: py_nat_def split: if_splits)

lemma py_int_error: "py_int s = Inl e \<Longrightarrow> e = ValueError"
  by (auto simp: py_int_def split: if_splits sum.splits dest: py_nat_error)

lemma py_float_error: "py_float pf s = Inl e \<Longrightarrow> e = ValueError"
  by (auto simp: py_float_def split: option.splits)

lemma arc_rows_eq:
  "set es \<subseteq> set (G_edges g) \<Longrightarrow> arc_rows sf g es = Inr (map (arc_row sf g) es)"
proof (induction es)
  case Nil
  show ?case by simp
next
  case (Cons e es)
  obtain u v where e: "e = (u, v)" by (cases e)
  have "G_attr g (u, v) = Inr (attr_of g (u, v))"
    using Cons.prems e by (simp add: G_attr_eq)
  then show ?case
    using Cons e by (simp add: seq_def arc_row_def)
qed

lemma read_arc_row:
  "read_rows pf (arc_row sf g0 e # rows) Arcs g dem = Inl ValueError \<or>
   (\<exists>g'. read_rows pf (arc_row sf g0 e # rows) Arcs g dem = read_rows pf rows Arcs g' dem)"
proof -
  let ?row = "arc_row sf g0 e"
  have hd: "hd ?row = str_int (fst e)" and ne: "?row \<noteq> []"
    by (simp_all add: arc_row_def)
  have nh: "hd ?row \<noteq> ''Source''" "hd ?row \<noteq> ''entry''" "hd ?row \<noteq> ''Subset S''"
    using numeric_head_not_header[OF numeric_head_str_int, of "fst e"] hd by simp_all
  have cells: "cell ?row 0 = Inr (str_int (fst e))" "cell ?row (Suc 0) = Inr (str_int (snd e))"
      "cell ?row 2 = Inr (sf (capacity (attr_of g0 e)))" "cell ?row 3 = Inr (sf (cost (attr_of g0 e)))"
    by (simp_all add: cell_def arc_row_def)
  have "read_rows pf (?row # rows) Arcs g dem =
      seq (py_int (str_int (fst e))) (\<lambda>u.
      seq (py_int (str_int (snd e))) (\<lambda>v.
      seq (py_float pf (sf (capacity (attr_of g0 e)))) (\<lambda>cap.
      seq (py_float pf (sf (cost (attr_of g0 e)))) (\<lambda>cst.
        read_rows pf rows Arcs (add_edge u v \<lparr>capacity = cap, cost = cst\<rparr> g) dem))))"
    using ne nh by (simp add: cells seq_def Let_def)
  then show ?thesis
    by (auto simp: seq_def split: sum.splits dest: py_int_error py_float_error)
qed

lemma read_arc_rows:
  "read_rows pf (map (arc_row sf g0) es @ rows) Arcs g dem = Inl ValueError \<or>
   (\<exists>g'. read_rows pf (map (arc_row sf g0) es @ rows) Arcs g dem = read_rows pf rows Arcs g' dem)"
proof (induction es arbitrary: g)
  case Nil
  show ?case by auto
next
  case (Cons e es)
  from read_arc_row[of pf sf g0 e "map (arc_row sf g0) es @ rows" g dem]
  show ?case
  proof
    assume "read_rows pf (arc_row sf g0 e # map (arc_row sf g0) es @ rows) Arcs g dem = Inl ValueError"
    then show ?thesis by simp
  next
    assume "\<exists>g'. read_rows pf (arc_row sf g0 e # map (arc_row sf g0) es @ rows) Arcs g dem =
                 read_rows pf (map (arc_row sf g0) es @ rows) Arcs g' dem"
    then obtain g' where "read_rows pf (arc_row sf g0 e # map (arc_row sf g0) es @ rows) Arcs g dem =
                 read_rows pf (map (arc_row sf g0) es @ rows) Arcs g' dem" ..
    then show ?thesis
      using Cons[of g'] by auto
  qed
qed

lemma read_entry_header:
  "read_rows pf ([] # [''entry'', ''Target'', ''Traffic Demand''] # rows) sec g dem = Inl ValueError"
  by (simp add: seq_def cell_def py_int_def py_nat_def is_digit_def Let_def)

text \<open>
  C10. The round trip does not hold on the code. \<open>save_to_csv\<close> always writes the header
  row \<open>entry, Target, Traffic Demand\<close>; in \<open>read_instance\<close> the branch for \<open>entry\<close> sets
  the section and, lacking the \<open>continue\<close> of the branches for \<open>Source\<close> and \<open>Subset S\<close>,
  hands the header row to the demand parser, where \<open>int\<close> raises \<open>ValueError\<close>. So for
  every graph, subset and demand mapping, reading back what was written raises
  \<open>ValueError\<close> (at the latest at that row).
\<close>

theorem round_trip_fails:
  "\<exists>rows. save_to_csv sf g S ds = Inr rows \<and> read_instance pf rows = Inl ValueError"
proof -
  let ?rest = "map (\<lambda>((i, j), demand). [str_int i, str_int j, str_int demand]) ds @
            [[], [''Subset S''], map str_int S]"
  let ?rows = "[''Source'', ''Target'', ''Capacity'', ''Cost''] # map (arc_row sf g) (G_edges g) @
            ([] # [''entry'', ''Target'', ''Traffic Demand''] # ?rest)"
  have s: "save_to_csv sf g S ds = Inr ?rows"
    by (simp add: save_to_csv_def arc_rows_eq seq_def)
  have "read_instance pf ?rows =
        read_rows pf (map (arc_row sf g) (G_edges g) @ ([] # [''entry'', ''Target'', ''Traffic Demand''] # ?rest))
          Arcs \<lparr>nodes = [], edges = []\<rparr> []"
    by (simp add: read_instance_def)
  moreover have "read_rows pf (map (arc_row sf g) (G_edges g) @ ([] # [''entry'', ''Target'', ''Traffic Demand''] # ?rest))
          Arcs \<lparr>nodes = [], edges = []\<rparr> [] = Inl ValueError"
  proof -
    from read_arc_rows[of pf sf g "G_edges g" "[] # [''entry'', ''Target'', ''Traffic Demand''] # ?rest"
        "\<lparr>nodes = [], edges = []\<rparr>" "[]"]
    show ?thesis
    proof
      assume "read_rows pf (map (arc_row sf g) (G_edges g) @ [] # [''entry'', ''Target'', ''Traffic Demand''] # ?rest)
          Arcs \<lparr>nodes = [], edges = []\<rparr> [] = Inl ValueError"
      then show ?thesis .
    next
      assume "\<exists>g'. read_rows pf (map (arc_row sf g) (G_edges g) @ [] # [''entry'', ''Target'', ''Traffic Demand''] # ?rest)
          Arcs \<lparr>nodes = [], edges = []\<rparr> [] =
          read_rows pf ([] # [''entry'', ''Target'', ''Traffic Demand''] # ?rest) Arcs g' []"
      then obtain g' where "read_rows pf (map (arc_row sf g) (G_edges g) @ [] # [''entry'', ''Target'', ''Traffic Demand''] # ?rest)
          Arcs \<lparr>nodes = [], edges = []\<rparr> [] =
          read_rows pf ([] # [''entry'', ''Target'', ''Traffic Demand''] # ?rest) Arcs g' []" ..
      then show ?thesis
        by (simp only: read_entry_header)
    qed
  qed
  ultimately show ?thesis
    using s by simp
qed

end
